theory Spec2Isabelle
  imports Main
begin

section \<open>Strings\<close>

text \<open>
  A JavaScript string is a sequence of UTF-16 code units. A code unit is modelled as a
  natural number, a string as the list of its code units. All the non-ASCII
  characters that \<^verbatim>\<open>scripts/extract-data.js\<close> names (the accented letters of
  \<^verbatim>\<open>normalizeName\<close> and \<^verbatim>\<open>countDiacritics\<close>, the en dash) are single code units.
  \<open>str\<close> writes an ASCII literal.
\<close>

type_synonym jsstring = "nat list"

definition str :: "string \<Rightarrow> jsstring" where
  "str s = map of_char s"

text \<open>The en dash U+2013, which the site uses as placeholder, and the ASCII hyphen.\<close>

definition en_dash :: jsstring where
  "en_dash = [8211]"

definition hyphen :: jsstring where
  "hyphen = [45]"

text \<open>
  The code units matched by \<^verbatim>\<open>\s\<close> in a regular expression; \<^verbatim>\<open>String.prototype.trim\<close>
  strips the same set (WhiteSpace and LineTerminator of ECMAScript).
\<close>

definition is_ws :: "nat \<Rightarrow> bool" where
  "is_ws c \<longleftrightarrow>
     c \<in> set [9, 10, 11, 12, 13, 32, 160, 5760, 8232, 8233, 8239, 8287, 12288, 65279]
     \<or> (8192 \<le> c \<and> c \<le> 8202)"

definition trim :: "jsstring \<Rightarrow> jsstring" where
  "trim s = rev (dropWhile is_ws (rev (dropWhile is_ws s)))"

text \<open>\<^verbatim>\<open>s.replace(/[...]/g, 'r')\<close>: every code unit of the class becomes \<open>r\<close>.\<close>

definition replace_class :: "nat list \<Rightarrow> nat \<Rightarrow> jsstring \<Rightarrow> jsstring" where
  "replace_class cls r s = map (\<lambda>c. if c \<in> set cls then r else c) s"

text \<open>\<^verbatim>\<open>s.replace(/\s+/g, ' ')\<close>: every maximal run of whitespace becomes one space.\<close>

function replace_ws_runs :: "jsstring \<Rightarrow> jsstring" where
  "replace_ws_runs [] = []"
| "replace_ws_runs (c # cs) =
     (if is_ws c then 32 # replace_ws_runs (dropWhile is_ws cs)
      else c # replace_ws_runs cs)"
  by pat_completeness auto
termination
  by (relation "measure length") (auto simp: length_dropWhile_le less_Suc_eq_le)

section \<open>Names\<close>

text \<open>
  \<^verbatim>\<open>normalizeName\<close> (extract-data.js, lines 75-87). \<^verbatim>\<open>String.prototype.toLowerCase\<close> is a
  built-in of the language whose Unicode case table is not part of the repository; it is
  the parameter \<open>toLowerCase\<close>, so that what is proved holds for the real one.
\<close>

definition normalizeName :: "(jsstring \<Rightarrow> jsstring) \<Rightarrow> jsstring \<Rightarrow> jsstring" where
  "normalizeName toLowerCase nm =
     replace_ws_runs
       (replace_class [241] 110
         (replace_class [231] 99
           (replace_class [250, 249, 251, 252] 117
             (replace_class [243, 242, 244, 246] 111
               (replace_class [237, 236, 238, 239] 105
                 (replace_class [225, 224, 226, 228] 97
                   (replace_class [233, 232, 234, 235] 101
                     (trim (toLowerCase nm)))))))))"

text \<open>
  \<^verbatim>\<open>toLowerCase\<close> on Basic Latin and Latin-1 Supplement (code units below 256), where it
  acts code unit by code unit: A-Z and the capitals U+00C0-U+00DE other than the
  multiplication sign U+00D7 move up by 32. It is not the built-in on other strings
  (it leaves the code units from 256 on as they are); it serves only to evaluate the
  functions on concrete names, all of whose code units lie below 256. Every statement about
  all names is made for the parameter \<open>toLowerCase\<close>.
\<close>

definition lower_unit :: "nat \<Rightarrow> nat" where
  "lower_unit c =
     (if (65 \<le> c \<and> c \<le> 90) \<or> (192 \<le> c \<and> c \<le> 222 \<and> c \<noteq> 215) then c + 32 else c)"

definition toLowerCase_latin1 :: "jsstring \<Rightarrow> jsstring" where
  "toLowerCase_latin1 s = map lower_unit s"

text \<open>\<^verbatim>\<open>NAME_MAPPINGS\<close> (lines 62-69), an object literal: its own properties in order.\<close>

definition NAME_MAPPINGS :: "(jsstring \<times> jsstring) list" where
  "NAME_MAPPINGS =
     [(str ''anette van velzen'', str ''Anette Boluijt''),
      (str ''vikas arumugan'', str ''Vikas Arumugam''),
      (str ''roy derksen'', str ''Roy Derks''),
      (str ''jan van de bosch'', str ''Jan van den Bosch''),
      (str ''chantal kamphuis'', str ''Chantal Brinks-Kamphuis''),
      (str ''bert jan rietveld'', str ''Bert-Jan Rietveld'')]"

text \<open>
  An object literal inherits from \<^verbatim>\<open>Object.prototype\<close>, so \<^verbatim>\<open>obj[key]\<close> is not
  \<^verbatim>\<open>undefined\<close> for these keys even when \<open>obj\<close> has no such property of its own: it is
  a function (or, for \<^verbatim>\<open>__proto__\<close>, the prototype object), a truthy value that is
  not a string.
\<close>

definition Object_prototype_names :: "jsstring list" where
  "Object_prototype_names =
     [str ''constructor'', str ''__defineGetter__'', str ''__defineSetter__'',
      str ''hasOwnProperty'', str ''__lookupGetter__'', str ''__lookupSetter__'',
      str ''isPrototypeOf'', str ''propertyIsEnumerable'', str ''toString'',
      str ''valueOf'', str ''__proto__'', str ''toLocaleString'']"

datatype 'a property = Undefined | Own 'a | Inherited

definition get_property :: "(jsstring \<times> 'a) list \<Rightarrow> jsstring \<Rightarrow> 'a property" where
  "get_property obj k =
     (case map_of obj k of
        Some v \<Rightarrow> Own v
      | None \<Rightarrow> if k \<in> set Object_prototype_names then Inherited else Undefined)"

text \<open>
  \<^verbatim>\<open>applyNameMapping\<close> (lines 93-102) returns \<^verbatim>\<open>NAME_MAPPINGS[normalized]\<close> when that is
  truthy and the name otherwise. For a name whose normalised form is a property name of
  \<^verbatim>\<open>Object.prototype\<close> the value returned is not a string.
\<close>

datatype jsvalue = Str jsstring | NotAString

definition applyNameMapping :: "(jsstring \<Rightarrow> jsstring) \<Rightarrow> jsstring \<Rightarrow> jsvalue" where
  "applyNameMapping toLowerCase nm =
     (let normalized = normalizeName toLowerCase nm in
      case get_property NAME_MAPPINGS normalized of
        Own v \<Rightarrow> if v \<noteq> [] then Str v else Str nm
      | Inherited \<Rightarrow> NotAString
      | Undefined \<Rightarrow> Str nm)"

text \<open>
  \<^verbatim>\<open>extractNames\<close> (lines 107-119). \<open>split_names\<close> is
  \<^verbatim>\<open>text.split(/,|\sen\s/)\<close>: the accumulator \<open>cur\<close> is the fragment read so far; a
  comma, or \<^verbatim>\<open>en\<close> between two whitespace code units, ends it.
\<close>

function split_names :: "jsstring \<Rightarrow> jsstring \<Rightarrow> jsstring list" where
  "split_names cur [] = [cur]"
| "split_names cur (c # cs) =
     (if c = 44 then cur # split_names [] cs
      else if is_ws c \<and> 3 \<le> length cs \<and> cs ! 0 = 101 \<and> cs ! 1 = 110 \<and> is_ws (cs ! 2)
        then cur # split_names [] (drop 3 cs)
      else split_names (cur @ [c]) cs)"
  by pat_completeness auto
termination
  by (relation "measure (\<lambda>(cur, s). length s)") auto

definition extractNames :: "jsstring \<Rightarrow> jsstring list" where
  "extractNames text =
     (if text = [] \<or> text = en_dash \<or> text = hyphen \<or> trim text = [] then []
      else filter (\<lambda>nm. nm \<noteq> [] \<and> nm \<noteq> en_dash \<and> nm \<noteq> hyphen)
             (map trim (split_names [] text)))"

text \<open>
  \<^verbatim>\<open>countDiacritics\<close> (lines 316-318): the matches of the class, case-insensitively, so
  the capitals (32 below) count too.
\<close>

definition accented_units :: "nat list" where
  "accented_units =
     [233, 232, 234, 235, 225, 224, 226, 228, 237, 236, 238, 239,
      243, 242, 244, 246, 250, 249, 251, 252, 231, 241]"

definition countDiacritics :: "jsstring \<Rightarrow> nat" where
  "countDiacritics s =
     length (filter (\<lambda>c. c \<in> set accented_units \<or> c + 32 \<in> set accented_units) s)"

section \<open>Sources and results\<close>

text \<open>An entry of \<^verbatim>\<open>DATA_SOURCES\<close> (lines 13-56).\<close>

record source =
  src_name :: jsstring
  src_url :: jsstring
  src_type :: jsstring
  src_category :: jsstring

definition DATA_SOURCES :: "source list" where
  "DATA_SOURCES =
     [\<lparr>src_name = str ''Doubletten Kampioenschappen'',
       src_url = str ''https://www.zwijntje.nl/vereniging/eregalerij/clubkampioenschappen/doubletten/'',
       src_type = str ''championship'', src_category = str ''doubletten''\<rparr>,
      \<lparr>src_name = str ''Mix Kampioenschappen'',
       src_url = str ''https://www.zwijntje.nl/vereniging/eregalerij/clubkampioenschappen/mix/'',
       src_type = str ''championship'', src_category = str ''mix''\<rparr>,
      \<lparr>src_name = str ''T'' @ [234] @ str ''te-'' @ [224] @ str ''-t'' @ [234]
                    @ str ''te Kampioenschappen'',
       src_url = str ''https://www.zwijntje.nl/vereniging/eregalerij/clubkampioenschappen/tete-a-tete/'',
       src_type = str ''championship'', src_category = str ''tete-a-tete''\<rparr>,
      \<lparr>src_name = str ''Tripletten Kampioenschappen'',
       src_url = str ''https://www.zwijntje.nl/vereniging/eregalerij/clubkampioenschappen/tripletten/'',
       src_type = str ''championship'', src_category = str ''tripletten''\<rparr>,
      \<lparr>src_name = str ''Doubletten Competities'',
       src_url = str ''https://www.zwijntje.nl/vereniging/eregalerij/clubcompetities/doubletten/'',
       src_type = str ''competition'', src_category = str ''doubletten''\<rparr>,
      \<lparr>src_name = str ''Tripletten Competities'',
       src_url = str ''https://www.zwijntje.nl/vereniging/eregalerij/clubcompetities/tripletten/'',
       src_type = str ''competition'', src_category = str ''tripletten''\<rparr>,
      \<lparr>src_name = str ''Zomercyclus'',
       src_url = str ''https://www.zwijntje.nl/vereniging/eregalerij/clubcompetities/zomercyclus/'',
       src_type = str ''competition'', src_category = str ''zomercyclus''\<rparr>]"

text \<open>A result as \<^verbatim>\<open>processData\<close> pushes it.\<close>

record result =
  year :: nat
  category :: jsstring
  type :: jsstring
  poule :: jsstring
  winners :: "jsstring list"

section \<open>The row interpreter\<close>

text \<open>\<^verbatim>\<open>/^\d{4}$/.test(s)\<close>: exactly four ASCII digits.\<close>

definition is_year :: "jsstring \<Rightarrow> bool" where
  "is_year s \<longleftrightarrow> length s = 4 \<and> list_all (\<lambda>c. 48 \<le> c \<and> c \<le> 57) s"

text \<open>\<^verbatim>\<open>parseInt\<close>, which the code applies to strings of four digits only.\<close>

definition parseInt :: "jsstring \<Rightarrow> nat" where
  "parseInt s = foldl (\<lambda>n c. 10 * n + (c - 48)) 0 s"

text \<open>\<^verbatim>\<open>cells[i]\<close>, which is \<^verbatim>\<open>undefined\<close> (\<open>None\<close>) past the end of the array.\<close>

definition cell_at :: "jsstring list \<Rightarrow> nat \<Rightarrow> jsstring option" where
  "cell_at cells i = (if i < length cells then Some (cells ! i) else None)"

text \<open>
  \<^verbatim>\<open>processData\<close> (lines 211-310), first branch: the body of the \<^verbatim>\<open>zomercyclus\<close> loop
  at index \<open>i\<close>, as the results it pushes, and the loop with its stride of 2.
\<close>

definition zomercyclus_row :: "jsstring list \<Rightarrow> source \<Rightarrow> nat \<Rightarrow> result list" where
  "zomercyclus_row cells source i =
     (let yr = cells ! i in
      if yr = [] \<or> \<not> is_year yr then []
      else case cell_at cells (i + 1) of
             None \<Rightarrow> []
           | Some winner \<Rightarrow>
               if winner \<noteq> [] \<and> winner \<noteq> en_dash
               then [\<lparr>year = parseInt yr, category = src_category source,
                      type = src_type source, poule = str ''A'', winners = [winner]\<rparr>]
               else [])"

function zomercyclus_loop :: "jsstring list \<Rightarrow> source \<Rightarrow> nat \<Rightarrow> result list \<Rightarrow> result list" where
  "zomercyclus_loop cells source i results =
     (if i < length cells
      then zomercyclus_loop cells source (i + 2) (results @ zomercyclus_row cells source i)
      else results)"
  by pat_completeness auto
termination
  by (relation "measure (\<lambda>(cells, source, i, results). length cells - i)") auto

text \<open>Second branch: the \<^verbatim>\<open>tete-a-tete\<close> loop, stride 3, men's and women's winner.\<close>

definition tete_a_tete_row :: "jsstring list \<Rightarrow> source \<Rightarrow> nat \<Rightarrow> result list" where
  "tete_a_tete_row cells source i =
     (let yr = cells ! i in
      if yr = [] \<or> \<not> is_year yr then []
      else
        (case cell_at cells (i + 1) of
           None \<Rightarrow> []
         | Some menWinner \<Rightarrow>
             if menWinner \<noteq> [] \<and> menWinner \<noteq> en_dash
             then [\<lparr>year = parseInt yr, category = src_category source,
                    type = src_type source, poule = str ''A'', winners = [menWinner]\<rparr>]
             else [])
        @
        (case cell_at cells (i + 2) of
           None \<Rightarrow> []
         | Some womenWinner \<Rightarrow>
             if womenWinner \<noteq> [] \<and> womenWinner \<noteq> en_dash
             then [\<lparr>year = parseInt yr, category = src_category source,
                    type = src_type source, poule = str ''A'', winners = [womenWinner]\<rparr>]
             else []))"

function tete_a_tete_loop :: "jsstring list \<Rightarrow> source \<Rightarrow> nat \<Rightarrow> result list \<Rightarrow> result list" where
  "tete_a_tete_loop cells source i results =
     (if i < length cells
      then tete_a_tete_loop cells source (i + 3) (results @ tete_a_tete_row cells source i)
      else results)"
  by pat_completeness auto
termination
  by (relation "measure (\<lambda>(cells, source, i, results). length cells - i)") auto

text \<open>
  Third branch, all other categories. \<open>skip_non_years\<close> is the loop
  \<^verbatim>\<open>while (i < cells.length && !/^\d{4}$/.test(cells[i])) i++\<close>, which occurs twice;
  \<open>poule_a_row\<close> is what the main loop pushes for the year cell at \<open>i\<close>, from the
  cell after it.
\<close>

function skip_non_years :: "jsstring list \<Rightarrow> nat \<Rightarrow> nat" where
  "skip_non_years cells i =
     (if i < length cells \<and> \<not> is_year (cells ! i) then skip_non_years cells (i + 1) else i)"
  by pat_completeness auto
termination
  by (relation "measure (\<lambda>(cells, i). length cells - i)") auto

declare skip_non_years.simps [simp del]

lemma skip_non_years_ge: "i \<le> skip_non_years cells i"
proof (induction cells i rule: skip_non_years.induct)
  case (1 cells i)
  show ?case
  proof (cases "i < length cells \<and> \<not> is_year (cells ! i)")
    case True
    with 1 have "i + 1 \<le> skip_non_years cells (i + 1)" by simp
    moreover from True have "skip_non_years cells i = skip_non_years cells (i + 1)"
      by (subst skip_non_years.simps) simp
    ultimately show ?thesis by simp
  next
    case False
    then have "skip_non_years cells i = i"
      by (subst skip_non_years.simps) auto
    then show ?thesis by simp
  qed
qed

definition poule_a_result :: "source \<Rightarrow> jsstring \<Rightarrow> jsstring \<Rightarrow> result list" where
  "poule_a_result source yr pouleA =
     (if pouleA \<noteq> [] \<and> pouleA \<noteq> en_dash \<and> trim pouleA \<noteq> []
      then (let names = extractNames pouleA in
            if length names > 0
            then [\<lparr>year = parseInt yr, category = src_category source,
                   type = src_type source, poule = str ''A'', winners = names\<rparr>]
            else [])
      else [])"

definition poule_a_row :: "jsstring list \<Rightarrow> source \<Rightarrow> nat \<Rightarrow> result list" where
  "poule_a_row cells source i =
     (case cell_at cells (i + 1) of
        None \<Rightarrow> []
      | Some pouleA \<Rightarrow> poule_a_result source (cells ! i) pouleA)"

function poule_loop :: "jsstring list \<Rightarrow> source \<Rightarrow> nat \<Rightarrow> result list \<Rightarrow> result list" where
  "poule_loop cells source i results =
     (if i < length cells
      then (if \<not> is_year (cells ! i) then poule_loop cells source (i + 1) results
            else poule_loop cells source (skip_non_years cells (i + 2))
                   (results @ poule_a_row cells source i))
      else results)"
  by pat_completeness auto
termination
proof (relation "measure (\<lambda>(cells, source, i, results). length cells - i)")
  fix cells :: "jsstring list" and source :: source and i :: nat and results :: "result list"
  assume "i < length cells"
  moreover have "i + 2 \<le> skip_non_years cells (i + 2)"
    by (rule skip_non_years_ge)
  ultimately show "((cells, source, skip_non_years cells (i + 2),
                     results @ poule_a_row cells source i), cells, source, i, results)
                   \<in> measure (\<lambda>(cells, source, i, results). length cells - i)"
    by simp
qed auto

definition processData :: "jsstring list \<Rightarrow> source \<Rightarrow> result list" where
  "processData cells source =
     (if src_category source = str ''zomercyclus'' then zomercyclus_loop cells source 2 []
      else if src_category source = str ''tete-a-tete'' then tete_a_tete_loop cells source 3 []
      else poule_loop cells source (skip_non_years cells 0) [])"

declare zomercyclus_loop.simps [simp del]
declare tete_a_tete_loop.simps [simp del]
declare poule_loop.simps [simp del]

section \<open>The aggregator\<close>

text \<open>
  A player of \<^verbatim>\<open>buildPlayerStats\<close> (lines 323-364). \<open>wins\<close> is an object literal that
  starts empty: its own properties in insertion order. A property of it holds a count,
  or \<^verbatim>\<open>NaN\<close> once \<^verbatim>\<open>++\<close> has been applied to a value that is not a number.
\<close>

datatype jsnumber = Num nat | NaN

record player =
  displayName :: jsstring
  wins :: "(jsstring \<times> jsnumber) list"
  totalWins :: nat

datatype error = TypeError | NetworkError | StatusError nat

text \<open>
  \<open>set_own\<close> writes an own property (also \<^verbatim>\<open>Map.prototype.set\<close>: the entry keeps its
  place, a new key goes last). \<^verbatim>\<open>obj[k] = v\<close> does so for every key but \<^verbatim>\<open>__proto__\<close>,
  whose inherited setter ignores a value that is not an object.
\<close>

fun set_own :: "(jsstring \<times> 'a) list \<Rightarrow> jsstring \<Rightarrow> 'a \<Rightarrow> (jsstring \<times> 'a) list" where
  "set_own [] k v = [(k, v)]"
| "set_own ((k', v') # obj) k v =
     (if k' = k then (k, v) # obj else (k', v') # set_own obj k v)"

definition set_property :: "(jsstring \<times> jsnumber) list \<Rightarrow> jsstring \<Rightarrow> jsnumber
    \<Rightarrow> (jsstring \<times> jsnumber) list" where
  "set_property obj k v = (if k = str ''__proto__'' then obj else set_own obj k v)"

text \<open>\<^verbatim>\<open>!obj[k]\<close>, and the value that \<^verbatim>\<open>obj[k]++\<close> stores.\<close>

definition falsy :: "jsnumber property \<Rightarrow> bool" where
  "falsy p = (case p of Undefined \<Rightarrow> True | Own v \<Rightarrow> (case v of Num n \<Rightarrow> n = 0 | NaN \<Rightarrow> True)
              | Inherited \<Rightarrow> False)"

definition incremented :: "jsnumber property \<Rightarrow> jsnumber" where
  "incremented p = (case p of Own v \<Rightarrow> (case v of Num n \<Rightarrow> Num (n + 1) | NaN \<Rightarrow> NaN)
                    | Undefined \<Rightarrow> NaN | Inherited \<Rightarrow> NaN)"

definition categoryKey :: "result \<Rightarrow> jsstring" where
  "categoryKey res = type res @ str ''_'' @ category res"

text \<open>
  The body of the inner \<^verbatim>\<open>forEach\<close> (lines 328-356) for one winner \<open>nm\<close> of the result
  \<open>res\<close>, in its three steps. \<open>entry_for\<close> is the player that
  \<^verbatim>\<open>playerMap.get(normalizedName)\<close> returns after lines 333-345: a new one, or the one
  stored, whose display name is replaced by a name with more diacritics. \<open>count_win\<close>
  is lines 350-354 on the \<^verbatim>\<open>wins\<close> object. When \<^verbatim>\<open>applyNameMapping\<close> returns a value that
  is not a string, \<^verbatim>\<open>normalizeName(canonicalName)\<close> throws a TypeError.
\<close>

definition entry_for :: "(jsstring \<times> player) list \<Rightarrow> jsstring \<Rightarrow> jsstring \<Rightarrow> player" where
  "entry_for playerMap normalizedName canonicalName =
     (case map_of playerMap normalizedName of
        None \<Rightarrow> \<lparr>displayName = canonicalName, wins = [], totalWins = 0\<rparr>
      | Some p \<Rightarrow>
          if countDiacritics canonicalName > countDiacritics (displayName p)
          then p\<lparr>displayName := canonicalName\<rparr> else p)"

definition count_win :: "(jsstring \<times> jsnumber) list \<Rightarrow> jsstring \<Rightarrow> (jsstring \<times> jsnumber) list" where
  "count_win obj k =
     (let wins0 = (if falsy (get_property obj k) then set_property obj k (Num 0) else obj)
      in set_property wins0 k (incremented (get_property wins0 k)))"

definition credit :: "(jsstring \<Rightarrow> jsstring) \<Rightarrow> result \<Rightarrow> (jsstring \<times> player) list \<Rightarrow> jsstring
    \<Rightarrow> error + (jsstring \<times> player) list" where
  "credit toLowerCase res playerMap nm =
     (case applyNameMapping toLowerCase nm of
        NotAString \<Rightarrow> Inl TypeError
      | Str canonicalName \<Rightarrow>
          (let normalizedName = normalizeName toLowerCase canonicalName;
               p = entry_for playerMap normalizedName canonicalName
           in Inr (set_own playerMap normalizedName
                     (p\<lparr>wins := count_win (wins p) (categoryKey res),
                        totalWins := totalWins p + 1\<rparr>))))"

text \<open>The two nested \<^verbatim>\<open>forEach\<close> loops; an exception ends them.\<close>

fun credit_winners :: "(jsstring \<Rightarrow> jsstring) \<Rightarrow> result \<Rightarrow> (jsstring \<times> player) list
    \<Rightarrow> jsstring list \<Rightarrow> error + (jsstring \<times> player) list" where
  "credit_winners toLowerCase res playerMap [] = Inr playerMap"
| "credit_winners toLowerCase res playerMap (nm # nms) =
     (case credit toLowerCase res playerMap nm of
        Inl e \<Rightarrow> Inl e
      | Inr playerMap' \<Rightarrow> credit_winners toLowerCase res playerMap' nms)"

fun credit_results :: "(jsstring \<Rightarrow> jsstring) \<Rightarrow> (jsstring \<times> player) list \<Rightarrow> result list
    \<Rightarrow> error + (jsstring \<times> player) list" where
  "credit_results toLowerCase playerMap [] = Inr playerMap"
| "credit_results toLowerCase playerMap (res # rs) =
     (case credit_winners toLowerCase res playerMap (winners res) of
        Inl e \<Rightarrow> Inl e
      | Inr playerMap' \<Rightarrow> credit_results toLowerCase playerMap' rs)"

text \<open>
  \<^verbatim>\<open>Array.from(playerMap.values()).sort((a, b) => b.totalWins - a.totalWins)\<close>: the sort
  of an array is stable, as \<open>sort_key\<close> is.
\<close>

definition buildPlayerStats :: "(jsstring \<Rightarrow> jsstring) \<Rightarrow> result list \<Rightarrow> error + player list" where
  "buildPlayerStats toLowerCase allResults =
     (case credit_results toLowerCase [] allResults of
        Inl e \<Rightarrow> Inl e
      | Inr playerMap \<Rightarrow> Inr (sort_key (\<lambda>p. - int (totalWins p)) (map snd playerMap)))"

section \<open>The fetcher\<close>

text \<open>
  \<^verbatim>\<open>fetchUrl\<close> (lines 124-167). The network is the environment: the outcome of the
  \<open>k\<close>-th request to a URL is an error event, or a response with its status code
  (\<^verbatim>\<open>res.statusCode || 0\<close>) and body. \<open>attempt\<close> returns what the promise settles
  with, and the delays of the timers it has set, in order.
\<close>

datatype response = NetworkFailure | Response nat jsstring

definition shouldRetryStatus :: "nat \<Rightarrow> bool" where
  "shouldRetryStatus statusCode \<longleftrightarrow>
     statusCode = 429 \<or> (statusCode \<ge> 500 \<and> statusCode < 600)"

function attempt :: "(nat \<Rightarrow> response) \<Rightarrow> nat \<Rightarrow> nat \<Rightarrow> nat \<Rightarrow> (error + jsstring) \<times> nat list" where
  "attempt net k remainingRetries currentDelay =
     (case net k of
        Response statusCode body \<Rightarrow>
          if statusCode = 200 then (Inr body, [])
          else if shouldRetryStatus statusCode \<and> remainingRetries > 0
          then (case attempt net (k + 1) (remainingRetries - 1) (currentDelay * 2) of
                  (r, delays) \<Rightarrow> (r, currentDelay # delays))
          else (Inl (StatusError statusCode), [])
      | NetworkFailure \<Rightarrow>
          if remainingRetries > 0
          then (case attempt net (k + 1) (remainingRetries - 1) (currentDelay * 2) of
                  (r, delays) \<Rightarrow> (r, currentDelay # delays))
          else (Inl NetworkError, []))"
  by pat_completeness auto
termination
  by (relation "measure (\<lambda>(net, k, remainingRetries, currentDelay). remainingRetries)") auto

declare attempt.simps [simp del]

definition fetchUrl :: "(jsstring \<Rightarrow> nat \<Rightarrow> response) \<Rightarrow> jsstring \<Rightarrow> nat \<Rightarrow> nat
    \<Rightarrow> (error + jsstring) \<times> nat list" where
  "fetchUrl net url retries delayMs = attempt (net url) 0 retries delayMs"

section \<open>The cell extractor\<close>

text \<open>
  \<^verbatim>\<open>parseTableData\<close> (lines 175-206). \<open>find_sub pat s\<close> splits \<open>s\<close> at the first
  occurrence of \<open>pat\<close>. \<open>td_exec\<close> is one \<^verbatim>\<open>tdRegex.exec\<close> on what is left of the
  input: the leftmost \<^verbatim>\<open><td\<close> that is followed by a \<^verbatim>\<open>>\<close> and, after it, by a
  \<^verbatim>\<open></td>\<close>; it returns the group and the input after the match.
\<close>

fun find_sub :: "jsstring \<Rightarrow> jsstring \<Rightarrow> (jsstring \<times> jsstring) option" where
  "find_sub pat [] = (if pat = [] then Some ([], []) else None)"
| "find_sub pat (c # cs) =
     (if take (length pat) (c # cs) = pat then Some ([], drop (length pat) (c # cs))
      else case find_sub pat cs of
             None \<Rightarrow> None
           | Some (before, after) \<Rightarrow> Some (c # before, after))"

fun td_exec :: "jsstring \<Rightarrow> (jsstring \<times> jsstring) option" where
  "td_exec [] = None"
| "td_exec (c # cs) =
     (if take 3 (c # cs) = str ''<td''
      then (case dropWhile (\<lambda>x. x \<noteq> 62) (drop 3 (c # cs)) of
              [] \<Rightarrow> td_exec cs
            | gt # body \<Rightarrow>
                (case find_sub (str ''</td>'') body of
                   None \<Rightarrow> td_exec cs
                 | Some (content, rest) \<Rightarrow> Some (content, rest)))
      else td_exec cs)"

text \<open>\<^verbatim>\<open>.replace(/<[^>]*>/g, '')\<close>\<close>

function strip_tags :: "jsstring \<Rightarrow> jsstring" where
  "strip_tags [] = []"
| "strip_tags (c # cs) =
     (if c = 60
      then (case dropWhile (\<lambda>x. x \<noteq> 62) cs of
              [] \<Rightarrow> c # strip_tags cs
            | gt # rest \<Rightarrow> strip_tags rest)
      else c # strip_tags cs)"
  by pat_completeness auto
termination
proof (relation "measure length")
  fix c :: nat and cs :: jsstring and gt :: nat and rest :: jsstring
  assume "dropWhile (\<lambda>x. x \<noteq> 62) cs = gt # rest"
  then have "length (gt # rest) \<le> length cs"
    by (metis length_dropWhile_le)
  then show "(rest, c # cs) \<in> measure length"
    by simp
qed auto

text \<open>\<^verbatim>\<open>.replace(/&[^;]+;/g, (entity) => entities[entity] || entity)\<close>\<close>

definition entities :: "(jsstring \<times> jsstring) list" where
  "entities =
     [(str ''&#8211;'', [8211]), (str ''&nbsp;'', [32]), (str ''&amp;'', [38]),
      (str ''&lt;'', [60]), (str ''&gt;'', [62]), (str ''&quot;'', [34]),
      (str ''&#39;'', [39])]"

definition decode_entity :: "jsstring \<Rightarrow> jsstring" where
  "decode_entity entity = (case map_of entities entity of Some v \<Rightarrow> v | None \<Rightarrow> entity)"

function decode_entities :: "jsstring \<Rightarrow> jsstring" where
  "decode_entities [] = []"
| "decode_entities (c # cs) =
     (if c = 38 \<and> takeWhile (\<lambda>x. x \<noteq> 59) cs \<noteq> []
      then (case dropWhile (\<lambda>x. x \<noteq> 59) cs of
              [] \<Rightarrow> c # decode_entities cs
            | semi # rest \<Rightarrow>
                decode_entity (c # takeWhile (\<lambda>x. x \<noteq> 59) cs @ [59]) @ decode_entities rest)
      else c # decode_entities cs)"
  by pat_completeness auto
termination
proof (relation "measure length")
  fix c :: nat and cs :: jsstring and semi :: nat and rest :: jsstring
  assume "dropWhile (\<lambda>x. x \<noteq> 59) cs = semi # rest"
  then have "length (semi # rest) \<le> length cs"
    by (metis length_dropWhile_le)
  then show "(rest, c # cs) \<in> measure length"
    by simp
qed auto

lemma find_sub_shorter:
  "find_sub pat s = Some (before, after) \<Longrightarrow> length before + length after \<le> length s"
  by (induction s arbitrary: before) (auto split: if_splits option.splits)

lemma td_exec_shorter: "td_exec s = Some (content, rest) \<Longrightarrow> length rest < length s"
proof (induction s)
  case Nil
  then show ?case by simp
next
  case (Cons c cs)
  note IH = Cons.IH and found = Cons.prems
  show ?case
  proof (cases "take 3 (c # cs) = str ''<td''")
    case False
    with found have "td_exec cs = Some (content, rest)" by simp
    with IH show ?thesis by simp
  next
    case True
    then have unf: "td_exec (c # cs) =
        (case dropWhile (\<lambda>x. x \<noteq> 62) (drop 3 (c # cs)) of
           [] \<Rightarrow> td_exec cs
         | gt # body \<Rightarrow>
             (case find_sub (str ''</td>'') body of
                None \<Rightarrow> td_exec cs
              | Some (content, rest) \<Rightarrow> Some (content, rest)))"
      by (simp only: td_exec.simps simp_thms if_True)
    show ?thesis
    proof (cases "dropWhile (\<lambda>x. x \<noteq> 62) (drop 3 (c # cs))")
      case Nil
      have "td_exec (c # cs) = td_exec cs"
        unfolding unf Nil by simp
      with found IH show ?thesis by simp
    next
      case (Cons gt body)
      have "length (gt # body) \<le> length (drop 3 (c # cs))"
        by (metis Cons length_dropWhile_le)
      then have body: "length body < length (c # cs)"
        by simp
      show ?thesis
      proof (cases "find_sub (str ''</td>'') body")
        case None
        have "td_exec (c # cs) = td_exec cs"
          unfolding unf Cons by (simp add: None)
        with found IH show ?thesis by simp
      next
        case (Some hit)
        have "td_exec (c # cs) = Some hit"
          unfolding unf Cons by (cases hit) (simp add: Some)
        with found have "find_sub (str ''</td>'') body = Some (content, rest)"
          using Some by simp
        then have "length content + length rest \<le> length body"
          by (rule find_sub_shorter)
        with body show ?thesis by simp
      qed
    qed
  qed
qed

function td_cells :: "jsstring \<Rightarrow> jsstring list" where
  "td_cells html =
     (case td_exec html of
        None \<Rightarrow> []
      | Some (content, rest) \<Rightarrow> trim (decode_entities (strip_tags content)) # td_cells rest)"
  by pat_completeness auto
termination
  by (relation "measure length") (auto simp: td_exec_shorter)

declare td_cells.simps [simp del]

definition parseTableData :: "jsstring \<Rightarrow> jsstring list" where
  "parseTableData html = td_cells html"

section \<open>The run\<close>




text \<open>
  The category keys that the page's script knows (\<^verbatim>\<open>CATEGORY_MAP\<close>, src/scripts/main.js,
  lines 13-22), which it reads from the \<^verbatim>\<open>wins\<close> of each player.
\<close>

definition CATEGORY_MAP :: "(jsstring \<times> jsstring) list" where
  "CATEGORY_MAP =
     [(str ''championship_doubletten'', str ''champ-doubletten''),
      (str ''championship_mix'', str ''champ-mix''),
      (str ''championship_tete-a-tete-heren'', str ''champ-tete-heren''),
      (str ''championship_tete-a-tete-dames'', str ''champ-tete-dames''),
      (str ''championship_tripletten'', str ''champ-tripletten''),
      (str ''competition_doubletten'', str ''comp-doubletten''),
      (str ''competition_tripletten'', str ''comp-tripletten''),
      (str ''competition_zomercyclus'', str ''comp-zomer'')]"

section \<open>Evaluation\<close>

text \<open>The equations that evaluate the row interpreter and the names on concrete cells.\<close>

lemmas string_eval = str_def en_dash_def hyphen_def is_ws_def trim_def

lemmas rows_eval = processData_def DATA_SOURCES_def zomercyclus_loop.simps zomercyclus_row_def
  tete_a_tete_loop.simps tete_a_tete_row_def poule_loop.simps poule_a_row_def
  poule_a_result_def
  skip_non_years.simps extractNames_def is_year_def parseInt_def cell_at_def

lemmas names_eval = normalizeName_def toLowerCase_latin1_def lower_unit_def replace_class_def
  applyNameMapping_def get_property_def NAME_MAPPINGS_def Object_prototype_names_def
  countDiacritics_def accented_units_def

section \<open>The fetcher's retry policy\<close>

text \<open>
  What one request's outcome leads to when no retry follows, and the outcomes after
  which \<open>attempt\<close> retries while retries remain.
\<close>

definition settled :: "response \<Rightarrow> error + jsstring" where
  "settled r =
     (case r of
        NetworkFailure \<Rightarrow> Inl NetworkError
      | Response statusCode body \<Rightarrow>
          if statusCode = 200 then Inr body else Inl (StatusError statusCode))"

definition retried :: "response \<Rightarrow> bool" where
  "retried r =
     (case r of NetworkFailure \<Rightarrow> True | Response statusCode body \<Rightarrow> shouldRetryStatus statusCode)"

lemma attempt_last:
  assumes "r = 0 \<or> \<not> retried (net k)"
  shows "attempt net k r d = (settled (net k), [])"
  using assms
  by (subst attempt.simps)
     (auto simp: settled_def retried_def shouldRetryStatus_def split: response.splits)

lemma attempt_retry:
  assumes "retried (net k)" and "0 < r"
  shows "attempt net k r d =
           (fst (attempt net (k + 1) (r - 1) (d * 2)), d # snd (attempt net (k + 1) (r - 1) (d * 2)))"
  using assms
  by (subst attempt.simps)
     (auto simp: retried_def shouldRetryStatus_def split: response.splits prod.splits)

lemma attempt_run:
  assumes "list_all (\<lambda>j. retried (net (k + j))) [0..<n]"
    and "n \<le> r"
    and "n = r \<or> \<not> retried (net (k + n))"
  shows "attempt net k r d = (settled (net (k + n)), map (\<lambda>j. d * 2 ^ j) [0..<n])"
  using assms
proof (induction n arbitrary: k r d)
  case 0
  then show ?case by (simp add: attempt_last)
next
  case (Suc n)
  have each: "retried (net (k + j))" if "j < Suc n" for j
    using Suc.prems(1) that by (auto simp: list_all_iff less_Suc_eq simp del: upt_Suc)
  have first: "retried (net k)"
    using each [of 0] by simp
  have "retried (net (k + 1 + j))" if "j < n" for j
    using each [of "Suc j"] that by simp
  then have rest: "list_all (\<lambda>j. retried (net (k + 1 + j))) [0..<n]"
    by (simp add: list_all_iff)
  from Suc.prems(2) have r: "0 < r" "n \<le> r - 1"
    by simp_all
  from Suc.prems(2,3) have stop: "n = r - 1 \<or> \<not> retried (net (k + 1 + n))"
    by auto
  have "attempt net (k + 1) (r - 1) (d * 2)
          = (settled (net (k + 1 + n)), map (\<lambda>j. d * 2 * 2 ^ j) [0..<n])"
    by (rule Suc.IH [OF rest r(2) stop])
  with first r(1) show ?case
    by (simp add: attempt_retry map_upt_Suc del: upt_Suc)
qed

text \<open>
  C8, as the code has it. A request is retried exactly when it ends in a connection
  error or in a status 429 or 500 to 599 (599 included) and retries remain. So when
  the first \<open>n\<close> requests end that way, \<open>n\<close> is at most \<open>retries\<close>, and request \<open>n\<close>
  either is the last one allowed or ends otherwise, then \<open>fetchUrl\<close> settles with
  the outcome of request \<open>n\<close> (the body on status 200, an error on every other
  status and on a connection error) after exactly \<open>n\<close> retries, whose delays are
  \<open>delayMs\<close>, doubled each time. \<^verbatim>\<open>main\<close> calls it with the defaults 3 and 500.
\<close>

theorem fetchUrl_retry_policy:
  assumes "list_all (\<lambda>j. retried (net url j)) [0..<n]"
    and "n \<le> retries"
    and "n = retries \<or> \<not> retried (net url n)"
  shows "fetchUrl net url retries delayMs
           = (settled (net url n), map (\<lambda>j. delayMs * 2 ^ j) [0..<n])"
  unfolding fetchUrl_def using assms attempt_run [of "net url" 0 n retries delayMs]
  by simp

theorem fetchUrl_retry_policy_witness:
  "fetchUrl (\<lambda>u k. if k < 3 then NetworkFailure else Response 503 []) [] 3 500
     = (Inl (StatusError 503), [500, 1000, 2000])
   \<and> fetchUrl (\<lambda>u k. if k < 2 then Response 429 [] else Response 200 (str ''ok'')) [] 3 500
     = (Inr (str ''ok''), [500, 1000])
   \<and> fetchUrl (\<lambda>u k. Response 404 []) [] 3 500 = (Inl (StatusError 404), [])"
  using fetchUrl_retry_policy [of "\<lambda>u k. if k < 3 then NetworkFailure else Response 503 []" "[]" 3 3 500]
    fetchUrl_retry_policy [of "\<lambda>u k. if k < 2 then Response 429 [] else Response 200 (str ''ok'')" "[]" 2 3 500]
    fetchUrl_retry_policy [of "\<lambda>u k. Response 404 []" "[]" 0 3 500]
  by (simp add: retried_def settled_def shouldRetryStatus_def numeral_3_eq_3 numeral_2_eq_2)

text \<open>
  C8 as the claim states it has the retried statuses end before 599: a response with
  status 599 would then fail at once. The code retries it.
\<close>

theorem status_599_is_retried:
  "fetchUrl (\<lambda>u k. if k = 0 then Response 599 [] else Response 200 (str ''ok'')) [] 3 500
     = (Inr (str ''ok''), [500])"
  by (simp add: fetchUrl_def attempt.simps shouldRetryStatus_def)

section \<open>The rows of the variable-width categories\<close>

text \<open>
  The spec's words for the categories of variable row width (section 4.3): the cells
  are scanned forward for year tokens as row delimiters; only the cell immediately
  after a year contributes results; the cells after it, up to the next year token, are
  discarded. As a function of the list of cells:
\<close>

function spec_year_rows :: "source \<Rightarrow> jsstring list \<Rightarrow> result list" where
  "spec_year_rows source [] = []"
| "spec_year_rows source (c # cs) =
     (if is_year c
      then (case cs of
              [] \<Rightarrow> []
            | a # rest \<Rightarrow>
                poule_a_result source c a
                @ spec_year_rows source (dropWhile (\<lambda>x. \<not> is_year x) rest))
      else spec_year_rows source cs)"
  by pat_completeness auto
termination
proof (relation "measure (\<lambda>(source, cells). length cells)")
  fix source :: source and c :: jsstring and cs :: "jsstring list" and a rest
  assume "cs = a # rest"
  moreover have "length (dropWhile (\<lambda>x. \<not> is_year x) rest) \<le> length rest"
    by (rule length_dropWhile_le)
  ultimately show "((source, dropWhile (\<lambda>x. \<not> is_year x) rest), source, c # cs)
      \<in> measure (\<lambda>(source, cells). length cells)"
    by simp
qed auto

lemma drop_skip_non_years:
  "drop (skip_non_years cells i) cells = dropWhile (\<lambda>x. \<not> is_year x) (drop i cells)"
proof (induction cells i rule: skip_non_years.induct)
  case (1 cells i)
  show ?case
  proof (cases "i < length cells")
    case False
    then have "skip_non_years cells i = i"
      by (subst skip_non_years.simps) simp
    with False show ?thesis by simp
  next
    case True
    then have d: "drop i cells = cells ! i # drop (i + 1) cells"
      by (simp add: Cons_nth_drop_Suc)
    show ?thesis
    proof (cases "is_year (cells ! i)")
      case True
      with \<open>i < length cells\<close> have "skip_non_years cells i = i"
        by (subst skip_non_years.simps) simp
      with True d show ?thesis by simp
    next
      case False
      with \<open>i < length cells\<close> have "skip_non_years cells i = skip_non_years cells (i + 1)"
        by (subst skip_non_years.simps) simp
      with False \<open>i < length cells\<close> 1 d show ?thesis by simp
    qed
  qed
qed

lemma spec_year_rows_dropWhile:
  "spec_year_rows source (dropWhile (\<lambda>x. \<not> is_year x) cells) = spec_year_rows source cells"
  by (induction cells) simp_all

lemma poule_loop_spec:
  "poule_loop cells source i results = results @ spec_year_rows source (drop i cells)"
proof (induction cells source i results rule: poule_loop.induct)
  case (1 cells source i results)
  show ?case
  proof (cases "i < length cells")
    case False
    then show ?thesis by (subst poule_loop.simps) simp
  next
    case in_range: True
    then have d: "drop i cells = cells ! i # drop (i + 1) cells"
      by (simp add: Cons_nth_drop_Suc)
    show ?thesis
    proof (cases "is_year (cells ! i)")
      case False
      with in_range have "poule_loop cells source i results = poule_loop cells source (i + 1) results"
        by (subst poule_loop.simps) simp
      with False in_range 1(1) d show ?thesis by simp
    next
      case True
      with in_range have unf: "poule_loop cells source i results =
          poule_loop cells source (skip_non_years cells (i + 2)) (results @ poule_a_row cells source i)"
        by (subst poule_loop.simps) simp
      have IH: "poule_loop cells source (skip_non_years cells (i + 2)) (results @ poule_a_row cells source i)
          = (results @ poule_a_row cells source i)
            @ spec_year_rows source (dropWhile (\<lambda>x. \<not> is_year x) (drop (i + 2) cells))"
        using 1(2) [OF in_range] True by (simp add: drop_skip_non_years)
      show ?thesis
      proof (cases "i + 1 < length cells")
        case False
        with in_range have "drop (i + 1) cells = []" by simp
        with False unf IH d True show ?thesis
          by (simp add: poule_a_row_def cell_at_def)
      next
        case True
        then have "drop (i + 1) cells = cells ! (i + 1) # drop (i + 2) cells"
          by (metis Cons_nth_drop_Suc Suc_eq_plus1 add_Suc_right one_add_one)
        with True unf IH d \<open>is_year (cells ! i)\<close> show ?thesis
          by (simp add: poule_a_row_def cell_at_def)
      qed
    qed
  qed
qed

lemma processData_spec_year_rows:
  assumes "src_category source \<noteq> str ''zomercyclus''"
    and "src_category source \<noteq> str ''tete-a-tete''"
  shows "processData cells source = spec_year_rows source cells"
  using assms
  by (simp add: processData_def poule_loop_spec drop_skip_non_years spec_year_rows_dropWhile)

lemma spec_year_rows_skip:
  "list_all (\<lambda>c. \<not> is_year c) before \<Longrightarrow>
     spec_year_rows source (before @ cells) = spec_year_rows source cells"
  by (induction before) simp_all

lemma digit_plain: "48 \<le> c \<Longrightarrow> c \<le> 57 \<Longrightarrow> \<not> is_ws c \<and> c \<noteq> 44"
  by (auto simp: is_ws_def)

lemma split_names_plain:
  "list_all (\<lambda>c. \<not> is_ws c \<and> c \<noteq> 44) s \<Longrightarrow> split_names cur s = [cur @ s]"
  by (induction s arbitrary: cur) simp_all

lemma trim_plain:
  assumes "list_all (\<lambda>c. \<not> is_ws c) s"
  shows "trim s = s"
proof -
  from assms have "dropWhile is_ws s = s"
    by (cases s) simp_all
  moreover from assms have "dropWhile is_ws (rev s) = rev s"
    by (cases "rev s") (auto simp: list_all_iff)
  ultimately show ?thesis
    by (simp add: trim_def)
qed

lemma extractNames_year:
  assumes "is_year w"
  shows "extractNames w = [w]"
proof -
  from assms have len: "length w = 4" and digits: "list_all (\<lambda>c. 48 \<le> c \<and> c \<le> 57) w"
    by (simp_all add: is_year_def)
  from digits have plain: "list_all (\<lambda>c. \<not> is_ws c \<and> c \<noteq> 44) w"
    by (auto simp: list_all_iff digit_plain)
  then have "list_all (\<lambda>c. \<not> is_ws c) w"
    by (simp add: list_all_iff)
  then have t: "trim w = w"
    by (rule trim_plain)
  from len have ne: "w \<noteq> []" "w \<noteq> en_dash" "w \<noteq> hyphen"
    by (auto simp: en_dash_def hyphen_def)
  from plain have "split_names [] w = [w]"
    by (simp add: split_names_plain)
  with t ne show ?thesis
    by (simp add: extractNames_def)
qed

lemma poule_a_result_year:
  assumes "is_year w"
  shows "poule_a_result source yr w =
           [\<lparr>year = parseInt yr, category = src_category source, type = src_type source,
             poule = str ''A'', winners = [w]\<rparr>]"
proof -
  from assms have "length w = 4"
    by (simp add: is_year_def)
  then have "w \<noteq> []" "w \<noteq> en_dash"
    by (auto simp: en_dash_def)
  moreover from assms have "extractNames w = [w]"
    by (rule extractNames_year)
  moreover from this have "trim w \<noteq> []"
    by (auto simp: extractNames_def split: if_splits)
  ultimately show ?thesis
    by (simp add: poule_a_result_def)
qed

text \<open>
  C5. For every source of a category other than \<^verbatim>\<open>zomercyclus\<close> and \<^verbatim>\<open>tete-a-tete\<close> and
  every cell sequence, \<^verbatim>\<open>processData\<close> is the scan by year tokens: only the cell right
  after a year token contributes winners, the cells from there up to the next year token
  are discarded. In particular the cells Jaar, A, B, 2019, "Piet, Klaas", Jan, 2020,
  Marie, Els, Tom yield exactly two results: 2019 with Piet and Klaas, 2020 with Marie.
\<close>

theorem variable_width_rows:
  assumes "src_category source \<noteq> str ''zomercyclus''"
    and "src_category source \<noteq> str ''tete-a-tete''"
  shows "processData cells source = spec_year_rows source cells
    \<and> processData [str ''Jaar'', str ''A'', str ''B'', str ''2019'', str ''Piet, Klaas'',
          str ''Jan'', str ''2020'', str ''Marie'', str ''Els'', str ''Tom''] source
        = [\<lparr>year = 2019, category = src_category source, type = src_type source,
             poule = str ''A'', winners = [str ''Piet'', str ''Klaas'']\<rparr>,
           \<lparr>year = 2020, category = src_category source, type = src_type source,
             poule = str ''A'', winners = [str ''Marie'']\<rparr>]"
proof
  show "processData cells source = spec_year_rows source cells"
    using assms by (rule processData_spec_year_rows)
  have example: "spec_year_rows source [str ''Jaar'', str ''A'', str ''B'', str ''2019'', str ''Piet, Klaas'',
          str ''Jan'', str ''2020'', str ''Marie'', str ''Els'', str ''Tom'']
        = [\<lparr>year = 2019, category = src_category source, type = src_type source,
             poule = str ''A'', winners = [str ''Piet'', str ''Klaas'']\<rparr>,
           \<lparr>year = 2020, category = src_category source, type = src_type source,
             poule = str ''A'', winners = [str ''Marie'']\<rparr>]"
    by (simp add: poule_a_result_def extractNames_def is_year_def parseInt_def string_eval)
  show "processData [str ''Jaar'', str ''A'', str ''B'', str ''2019'', str ''Piet, Klaas'',
          str ''Jan'', str ''2020'', str ''Marie'', str ''Els'', str ''Tom''] source
        = [\<lparr>year = 2019, category = src_category source, type = src_type source,
             poule = str ''A'', winners = [str ''Piet'', str ''Klaas'']\<rparr>,
           \<lparr>year = 2020, category = src_category source, type = src_type source,
             poule = str ''A'', winners = [str ''Marie'']\<rparr>]"
    unfolding processData_spec_year_rows [OF assms] by (rule example)
qed

theorem variable_width_rows_witness:
  "processData [str ''Jaar'', str ''A'', str ''B'', str ''2019'', str ''Piet, Klaas'',
          str ''Jan'', str ''2020'', str ''Marie'', str ''Els'', str ''Tom''] (DATA_SOURCES ! 0)
        = [\<lparr>year = 2019, category = str ''doubletten'', type = str ''championship'',
             poule = str ''A'', winners = [str ''Piet'', str ''Klaas'']\<rparr>,
           \<lparr>year = 2020, category = str ''doubletten'', type = str ''championship'',
             poule = str ''A'', winners = [str ''Marie'']\<rparr>]"
  using variable_width_rows [of "DATA_SOURCES ! 0" "[]"]
  by (simp add: DATA_SOURCES_def str_def)

text \<open>
  The positions of the scan. \<open>scan_at cells i\<close>: the third branch tests \<^verbatim>\<open>cells[i]\<close> for
  being a year token, as a candidate year and not as the Poule A cell of the year before
  it. The scan starts at 0 (line 266); a cell that is no year moves it on by one (lines
  269-271, 278-281 and 303-305); a year token moves it on by two, over the year and its
  Poule A cell (lines 284 and 300).
\<close>

inductive scan_at :: "jsstring list \<Rightarrow> nat \<Rightarrow> bool" for cells where
  start: "scan_at cells 0"
| skip: "scan_at cells i \<Longrightarrow> i < length cells \<Longrightarrow> \<not> is_year (cells ! i) \<Longrightarrow> scan_at cells (i + 1)"
| row: "scan_at cells i \<Longrightarrow> i < length cells \<Longrightarrow> is_year (cells ! i) \<Longrightarrow> scan_at cells (i + 2)"

code_pred scan_at .

text \<open>The results up to a position of the scan are those of the cells before it.\<close>

lemma scan_at_rows:
  assumes "scan_at cells i" and "i \<le> length cells"
  shows "spec_year_rows source (take i cells @ ys)
           = spec_year_rows source (take i cells) @ spec_year_rows source ys"
  using assms
proof (induction arbitrary: ys rule: scan_at.induct)
  case start
  show ?case by simp
next
  case (skip i)
  then have t: "take (i + 1) cells = take i cells @ [cells ! i]"
    by (simp add: take_Suc_conv_app_nth)
  from skip have IH: "spec_year_rows source (take i cells @ zs)
      = spec_year_rows source (take i cells) @ spec_year_rows source zs" for zs
    by simp
  from skip.hyps(3) show ?case
    unfolding t using IH [of "cells ! i # ys"] IH [of "[cells ! i]"] by simp
next
  case (row i)
  then have "Suc i < length cells" by simp
  then have t: "take (i + 2) cells = take i cells @ [cells ! i, cells ! Suc i]"
    by (simp add: take_Suc_conv_app_nth)
  from row have IH: "spec_year_rows source (take i cells @ zs)
      = spec_year_rows source (take i cells) @ spec_year_rows source zs" for zs
    by simp
  from row.hyps(3) show ?case
    unfolding t using IH [of "cells ! i # cells ! Suc i # ys"] IH [of "[cells ! i, cells ! Suc i]"]
    by (simp add: spec_year_rows_dropWhile)
qed

lemma processData_at_year:
  assumes "src_category source \<noteq> str ''zomercyclus''"
    and "src_category source \<noteq> str ''tete-a-tete''"
    and "scan_at cells i"
    and "Suc i < length cells"
    and "is_year (cells ! i)"
  shows "processData cells source
           = processData (take i cells) source
             @ poule_a_result source (cells ! i) (cells ! Suc i)
             @ processData (drop (i + 2) cells) source"
proof -
  from assms(4) have "drop i cells = cells ! i # cells ! Suc i # drop (i + 2) cells"
    by (simp add: Cons_nth_drop_Suc)
  then have "cells = take i cells @ cells ! i # cells ! Suc i # drop (i + 2) cells"
    by (metis append_take_drop_id)
  then have "spec_year_rows source cells
      = spec_year_rows source (take i cells @ cells ! i # cells ! Suc i # drop (i + 2) cells)"
    by simp
  also have "\<dots> = spec_year_rows source (take i cells)
      @ spec_year_rows source (cells ! i # cells ! Suc i # drop (i + 2) cells)"
    using assms(3,4) by (intro scan_at_rows) simp_all
  finally show ?thesis
    using assms(1,2,5) by (simp add: processData_spec_year_rows spec_year_rows_dropWhile)
qed

text \<open>
  C10. In the variable-width interpreter, let the scan recognise a year token at
  position \<open>i\<close>, anywhere in the table, and let the cell after it be a year token too. That
  cell is taken as the Poule A cell: \<^verbatim>\<open>processData\<close> yields the results of the cells before
  \<open>i\<close>, then a result for the year at \<open>i\<close> whose winners are exactly that four-digit
  string, then the results of the cells after the two: the scan for the next year
  resumes with the cell that follows.
\<close>

theorem year_token_after_year_is_winner:
  assumes "src_category source \<noteq> str ''zomercyclus''"
    and "src_category source \<noteq> str ''tete-a-tete''"
    and "scan_at cells i"
    and "Suc i < length cells"
    and "is_year (cells ! i)"
    and "is_year (cells ! Suc i)"
  shows "processData cells source
           = processData (take i cells) source
             @ \<lparr>year = parseInt (cells ! i), category = src_category source,
                 type = src_type source, poule = str ''A'', winners = [cells ! Suc i]\<rparr>
             # processData (drop (i + 2) cells) source"
  using processData_at_year [OF assms(1-5)] assms(6)
  by (simp add: poule_a_result_year)

theorem year_token_after_year_is_winner_witness:
  "processData [str ''Jaar'', str ''A'', str ''B'', str ''2018'', str ''Jan'', str ''X'',
     str ''2019'', str ''2020'', str ''Piet'', str ''2021'', str ''Kees''] (DATA_SOURCES ! 1)
   = [\<lparr>year = 2018, category = str ''mix'', type = str ''championship'', poule = str ''A'',
        winners = [str ''Jan'']\<rparr>,
      \<lparr>year = 2019, category = str ''mix'', type = str ''championship'', poule = str ''A'',
        winners = [str ''2020'']\<rparr>,
      \<lparr>year = 2021, category = str ''mix'', type = str ''championship'', poule = str ''A'',
        winners = [str ''Kees'']\<rparr>]"
proof -
  define cells where "cells = [str ''Jaar'', str ''A'', str ''B'', str ''2018'', str ''Jan'', str ''X'',
     str ''2019'', str ''2020'', str ''Piet'', str ''2021'', str ''Kees'']"
  have len: "length cells = 11"
    by (simp add: cells_def)
  have years: "\<not> is_year (cells ! 0)" "\<not> is_year (cells ! 1)" "\<not> is_year (cells ! 2)"
    "is_year (cells ! 3)" "\<not> is_year (cells ! 5)" "is_year (cells ! 6)" "is_year (cells ! 7)"
    by (simp_all add: cells_def is_year_def str_def)
  have "scan_at cells 0" by (rule start)
  from skip [OF this] len years have "scan_at cells 1" by (simp add: eval_nat_numeral)
  from skip [OF this] len years have "scan_at cells 2" by (simp add: eval_nat_numeral)
  from skip [OF this] len years have "scan_at cells 3" by (simp add: eval_nat_numeral)
  from row [OF this] len years have "scan_at cells 5" by (simp add: eval_nat_numeral)
  from skip [OF this] len years have at: "scan_at cells 6" by (simp add: eval_nat_numeral)
  have src: "src_category (DATA_SOURCES ! 1) \<noteq> str ''zomercyclus''"
    "src_category (DATA_SOURCES ! 1) \<noteq> str ''tete-a-tete''"
    by (simp_all add: DATA_SOURCES_def str_def)
  have before: "processData (take 6 cells) (DATA_SOURCES ! 1)
      = [\<lparr>year = 2018, category = str ''mix'', type = str ''championship'', poule = str ''A'',
        winners = [str ''Jan'']\<rparr>]"
    by (simp add: cells_def rows_eval string_eval)
  have after: "processData (drop (6 + 2) cells) (DATA_SOURCES ! 1)
      = [\<lparr>year = 2021, category = str ''mix'', type = str ''championship'', poule = str ''A'',
        winners = [str ''Kees'']\<rparr>]"
    by (simp add: cells_def rows_eval string_eval)
  have vals: "parseInt (cells ! 6) = 2019" "cells ! Suc 6 = str ''2020''"
    "src_category (DATA_SOURCES ! 1) = str ''mix''" "src_type (DATA_SOURCES ! 1) = str ''championship''"
    by (simp_all add: cells_def parseInt_def str_def DATA_SOURCES_def)
  from year_token_after_year_is_winner [OF src at _ years(6)] len years(7)
  have "processData cells (DATA_SOURCES ! 1)
           = processData (take 6 cells) (DATA_SOURCES ! 1)
             @ \<lparr>year = parseInt (cells ! 6), category = src_category (DATA_SOURCES ! 1),
                 type = src_type (DATA_SOURCES ! 1), poule = str ''A'', winners = [cells ! Suc 6]\<rparr>
             # processData (drop (6 + 2) cells) (DATA_SOURCES ! 1)"
    by simp
  then show ?thesis
    unfolding before after vals unfolding cells_def by simp
qed

section \<open>Placeholders and category keys\<close>

text \<open>
  C3. A winner cell that is the ASCII hyphen is a placeholder and must yield no result.
  The \<^verbatim>\<open>zomercyclus\<close> and \<^verbatim>\<open>tete-a-tete\<close> branches test the en dash only: a page whose
  winner cell is \<^verbatim>\<open>-\<close> yields a result with the winner \<^verbatim>\<open>-\<close>, where the branch of the
  other categories (through \<^verbatim>\<open>extractNames\<close>) yields none.
\<close>

theorem hyphen_cell_yields_result:
  "processData
     (parseTableData (str ''<tr><td>Jaar</td><td>Naam</td></tr><tr><td>2020</td><td>-</td></tr>''))
     (DATA_SOURCES ! 6)
   = [\<lparr>year = 2020, category = str ''zomercyclus'', type = str ''competition'',
        poule = str ''A'', winners = [hyphen]\<rparr>]
   \<and> processData [str ''Jaar'', str ''Heren'', str ''Dames'', str ''2021'', hyphen, en_dash]
       (DATA_SOURCES ! 2)
   = [\<lparr>year = 2021, category = str ''tete-a-tete'', type = str ''championship'',
        poule = str ''A'', winners = [hyphen]\<rparr>]
   \<and> processData [str ''Jaar'', str ''A'', str ''B'', str ''2021'', hyphen, en_dash]
       (DATA_SOURCES ! 0) = []"
  by (simp add: parseTableData_def td_cells.simps rows_eval string_eval)

text \<open>
  C4. The results of the \<^verbatim>\<open>tete-a-tete\<close> source must carry the suffix \<^verbatim>\<open>-heren\<close> or
  \<^verbatim>\<open>-dames\<close> in their category, as the keys of \<^verbatim>\<open>CATEGORY_MAP\<close> have it. Both results of
  a row carry the category \<^verbatim>\<open>tete-a-tete\<close> as it is, and their category key is no key of
  \<^verbatim>\<open>CATEGORY_MAP\<close>.
\<close>

theorem tete_a_tete_category_has_no_suffix:
  "map (\<lambda>r. (winners r, category r, map_of CATEGORY_MAP (categoryKey r)))
     (processData [str ''Jaar'', str ''Heren'', str ''Dames'', str ''2020'', str ''Jan'', str ''Marie'']
        (DATA_SOURCES ! 2))
   = [([str ''Jan''], str ''tete-a-tete'', None), ([str ''Marie''], str ''tete-a-tete'', None)]"
  by (simp add: rows_eval string_eval categoryKey_def CATEGORY_MAP_def)

section \<open>Failure of one source\<close>





section \<open>The aggregator's invariant\<close>

text \<open>
  The winners of a list of results in the order in which the two loops visit them, each
  with its result, and the loops as one loop over these occurrences.
\<close>

definition occurrences :: "result list \<Rightarrow> (result \<times> jsstring) list" where
  "occurrences rs = concat (map (\<lambda>res. map (Pair res) (winners res)) rs)"

fun credit_all :: "(jsstring \<Rightarrow> jsstring) \<Rightarrow> (jsstring \<times> player) list \<Rightarrow> (result \<times> jsstring) list
    \<Rightarrow> error + (jsstring \<times> player) list" where
  "credit_all toLowerCase playerMap [] = Inr playerMap"
| "credit_all toLowerCase playerMap (occ # occs) =
     (case credit toLowerCase (fst occ) playerMap (snd occ) of
        Inl e \<Rightarrow> Inl e
      | Inr playerMap' \<Rightarrow> credit_all toLowerCase playerMap' occs)"

lemma credit_all_append:
  "credit_all lc pm (xs @ ys) =
     (case credit_all lc pm xs of Inl e \<Rightarrow> Inl e | Inr pm' \<Rightarrow> credit_all lc pm' ys)"
  by (induction xs arbitrary: pm) (auto split: sum.splits)

lemma credit_winners_all:
  "credit_winners lc res pm nms = credit_all lc pm (map (Pair res) nms)"
  by (induction nms arbitrary: pm) (auto split: sum.splits)

lemma credit_results_occurrences:
  "credit_results lc pm rs = credit_all lc pm (occurrences rs)"
  by (induction rs arbitrary: pm)
     (auto simp: occurrences_def credit_all_append credit_winners_all split: sum.splits)

text \<open>
  \<^verbatim>\<open>sum(wins.values())\<close>, in the arithmetic of JavaScript numbers, and the invariant of a
  player: the total is that sum, and every count stored is a number that is at least 1.
\<close>

fun js_add :: "jsnumber \<Rightarrow> jsnumber \<Rightarrow> jsnumber" where
  "js_add (Num a) (Num b) = Num (a + b)"
| "js_add _ _ = NaN"

fun sum_values :: "(jsstring \<times> jsnumber) list \<Rightarrow> jsnumber" where
  "sum_values [] = Num 0"
| "sum_values (kv # obj) = js_add (snd kv) (sum_values obj)"

definition positive_count :: "jsnumber \<Rightarrow> bool" where
  "positive_count v = (case v of Num n \<Rightarrow> 1 \<le> n | NaN \<Rightarrow> False)"

definition player_ok :: "player \<Rightarrow> bool" where
  "player_ok p \<longleftrightarrow>
     sum_values (wins p) = Num (totalWins p) \<and> list_all (\<lambda>kv. positive_count (snd kv)) (wins p)"

lemma sum_values_set_own_new:
  "map_of obj k = None \<Longrightarrow> sum_values obj = Num t \<Longrightarrow> sum_values (set_own obj k (Num n)) = Num (t + n)"
proof (induction obj arbitrary: t)
  case Nil
  then show ?case by simp
next
  case (Cons kv obj)
  obtain k' v' where kv: "kv = (k', v')" by (cases kv)
  from Cons.prems kv obtain a b where v': "v' = Num a" and s: "sum_values obj = Num b" and t: "t = a + b"
    by (cases v'; cases "sum_values obj") auto
  from Cons.prems kv have "k' \<noteq> k" "map_of obj k = None"
    by (auto split: if_splits)
  with Cons.IH [OF _ s] kv v' t show ?case by simp
qed

lemma sum_values_set_own_old:
  "map_of obj k = Some (Num m) \<Longrightarrow> sum_values obj = Num t \<Longrightarrow>
     sum_values (set_own obj k (Num (m + d))) = Num (t + d)"
proof (induction obj arbitrary: t)
  case Nil
  then show ?case by simp
next
  case (Cons kv obj)
  obtain k' v' where kv: "kv = (k', v')" by (cases kv)
  from Cons.prems kv obtain a b where v': "v' = Num a" and s: "sum_values obj = Num b" and t: "t = a + b"
    by (cases v'; cases "sum_values obj") auto
  show ?case
  proof (cases "k' = k")
    case True
    with Cons.prems kv v' have "a = m" by simp
    with True kv v' s t show ?thesis by simp
  next
    case False
    with Cons.prems kv have "map_of obj k = Some (Num m)" by simp
    from Cons.IH [OF this s] False kv v' t show ?thesis by simp
  qed
qed

lemma list_all_set_own:
  "list_all (\<lambda>kv. P (snd kv)) obj \<Longrightarrow> P v \<Longrightarrow> list_all (\<lambda>kv. P (snd kv)) (set_own obj k v)"
  by (induction obj) auto

lemma list_all_map_of:
  "list_all (\<lambda>kv. P (snd kv)) obj \<Longrightarrow> map_of obj k = Some v \<Longrightarrow> P v"
  by (induction obj) (auto split: if_splits)

lemma map_of_set_own: "map_of (set_own obj k v) k = Some v"
  by (induction obj) auto

lemma set_own_twice: "set_own (set_own obj k a) k b = set_own obj k b"
  by (induction obj) auto

lemma count_win_ok:
  assumes plain: "k \<notin> set Object_prototype_names"
    and sum: "sum_values obj = Num t"
    and pos: "list_all (\<lambda>kv. positive_count (snd kv)) obj"
  shows "sum_values (count_win obj k) = Num (t + 1)
       \<and> list_all (\<lambda>kv. positive_count (snd kv)) (count_win obj k)"
proof -
  from plain have np: "k \<noteq> str ''__proto__''"
    by (auto simp: Object_prototype_names_def)
  show ?thesis
  proof (cases "map_of obj k")
    case None
    with plain have "count_win obj k = set_own (set_own obj k (Num 0)) k (Num 1)"
      by (simp add: count_win_def Let_def get_property_def falsy_def set_property_def np
          map_of_set_own incremented_def)
    then have cw: "count_win obj k = set_own obj k (Num 1)"
      by (simp add: set_own_twice)
    from None sum have "sum_values (count_win obj k) = Num (t + 1)"
      unfolding cw by (rule sum_values_set_own_new)
    moreover have "list_all (\<lambda>kv. positive_count (snd kv)) (count_win obj k)"
      unfolding cw using pos by (rule list_all_set_own) (simp add: positive_count_def)
    ultimately show ?thesis by simp
  next
    case (Some v)
    with pos have "positive_count v"
      by (rule list_all_map_of [where P = positive_count])
    then obtain m where v: "v = Num m" and m: "1 \<le> m"
      by (cases v) (auto simp: positive_count_def)
    with Some have cw: "count_win obj k = set_own obj k (Num (m + 1))"
      by (simp add: count_win_def Let_def get_property_def falsy_def incremented_def
          set_property_def np)
    from Some v sum have "sum_values (count_win obj k) = Num (t + 1)"
      unfolding cw by (intro sum_values_set_own_old) auto
    moreover have "list_all (\<lambda>kv. positive_count (snd kv)) (count_win obj k)"
      unfolding cw using pos by (rule list_all_set_own) (simp add: positive_count_def)
    ultimately show ?thesis by simp
  qed
qed

lemmas aggregate_eval = buildPlayerStats_def credit_def entry_for_def count_win_def Let_def
  categoryKey_def falsy_def incremented_def set_property_def occurrences_def player_ok_def
  positive_count_def

lemma entry_for_ok:
  assumes "list_all (\<lambda>kp. player_ok (snd kp)) pm"
  shows "player_ok (entry_for pm k c)"
proof (cases "map_of pm k")
  case None
  then show ?thesis by (simp add: entry_for_def player_ok_def)
next
  case (Some p)
  with assms have "player_ok p"
    by (rule list_all_map_of [where P = player_ok])
  with Some show ?thesis by (simp add: entry_for_def player_ok_def)
qed

lemma credit_Inr:
  assumes "credit lc res pm nm = Inr pm'"
  obtains c where "applyNameMapping lc nm = Str c"
    and "pm' = set_own pm (normalizeName lc c)
           ((entry_for pm (normalizeName lc c) c)
              \<lparr>wins := count_win (wins (entry_for pm (normalizeName lc c) c)) (categoryKey res),
               totalWins := totalWins (entry_for pm (normalizeName lc c) c) + 1\<rparr>)"
  using assms by (auto simp: credit_def Let_def split: jsvalue.splits)

lemma credit_ok:
  assumes step: "credit lc res pm nm = Inr pm'"
    and ok: "list_all (\<lambda>kp. player_ok (snd kp)) pm"
    and plain: "categoryKey res \<notin> set Object_prototype_names"
  shows "list_all (\<lambda>kp. player_ok (snd kp)) pm'"
proof -
  from step obtain c where pm': "pm' = set_own pm (normalizeName lc c)
           ((entry_for pm (normalizeName lc c) c)
              \<lparr>wins := count_win (wins (entry_for pm (normalizeName lc c) c)) (categoryKey res),
               totalWins := totalWins (entry_for pm (normalizeName lc c) c) + 1\<rparr>)"
    by (rule credit_Inr)
  define p where "p = entry_for pm (normalizeName lc c) c"
  from ok have "player_ok p"
    unfolding p_def by (rule entry_for_ok)
  then have "sum_values (wins p) = Num (totalWins p)"
    and "list_all (\<lambda>kv. positive_count (snd kv)) (wins p)"
    by (simp_all add: player_ok_def)
  with plain have "player_ok (p\<lparr>wins := count_win (wins p) (categoryKey res), totalWins := totalWins p + 1\<rparr>)"
    using count_win_ok [of "categoryKey res" "wins p" "totalWins p"]
    by (simp add: player_ok_def)
  with ok show ?thesis
    unfolding pm' p_def [symmetric] by (rule list_all_set_own)
qed

lemma credit_all_ok:
  assumes "credit_all lc pm occs = Inr pm'"
    and "list_all (\<lambda>kp. player_ok (snd kp)) pm"
    and "list_all (\<lambda>occ. categoryKey (fst occ) \<notin> set Object_prototype_names) occs"
  shows "list_all (\<lambda>kp. player_ok (snd kp)) pm'"
  using assms
proof (induction occs arbitrary: pm)
  case Nil
  then show ?case by simp
next
  case (Cons occ occs)
  from Cons.prems(1) obtain pm1 where first: "credit lc (fst occ) pm (snd occ) = Inr pm1"
    and rest: "credit_all lc pm1 occs = Inr pm'"
    by (auto split: sum.splits)
  from first Cons.prems(2,3) have "list_all (\<lambda>kp. player_ok (snd kp)) pm1"
    by (auto intro: credit_ok)
  with rest Cons.prems(3) show ?case
    by (auto intro: Cons.IH)
qed

lemma occurrences_plain:
  assumes "list_all (\<lambda>res. categoryKey res \<notin> set Object_prototype_names) rs"
  shows "list_all (\<lambda>occ. categoryKey (fst occ) \<notin> set Object_prototype_names) (occurrences rs)"
  using assms by (auto simp: occurrences_def list_all_iff)

text \<open>
  C2. For every sequence of results whose category keys are not property names of
  \<^verbatim>\<open>Object.prototype\<close> (those of the configured sources are not), after each single
  winner that the aggregator has processed, and for every player that
  \<^verbatim>\<open>buildPlayerStats\<close> returns: \<^verbatim>\<open>totalWins\<close> is the sum of the values of \<^verbatim>\<open>wins\<close>, and
  every key present in \<^verbatim>\<open>wins\<close> has a count of at least 1.
\<close>

theorem wins_sum_invariant:
  assumes "list_all (\<lambda>res. categoryKey res \<notin> set Object_prototype_names) rs"
  shows "(\<forall>n playerMap. credit_all toLowerCase [] (take n (occurrences rs)) = Inr playerMap
            \<longrightarrow> list_all (\<lambda>kp. player_ok (snd kp)) playerMap)
       \<and> (\<forall>players. buildPlayerStats toLowerCase rs = Inr players \<longrightarrow> list_all player_ok players)"
proof (intro conjI allI impI)
  fix n playerMap
  assume run: "credit_all toLowerCase [] (take n (occurrences rs)) = Inr playerMap"
  from assms have "list_all (\<lambda>occ. categoryKey (fst occ) \<notin> set Object_prototype_names)
      (take n (occurrences rs))"
    using occurrences_plain [of rs] by (auto simp: list_all_iff dest: in_set_takeD)
  with run show "list_all (\<lambda>kp. player_ok (snd kp)) playerMap"
    by (auto intro: credit_all_ok)
next
  fix players
  assume "buildPlayerStats toLowerCase rs = Inr players"
  then obtain playerMap where run: "credit_all toLowerCase [] (occurrences rs) = Inr playerMap"
    and players: "players = sort_key (\<lambda>p. - int (totalWins p)) (map snd playerMap)"
    by (auto simp: buildPlayerStats_def credit_results_occurrences split: sum.splits)
  from run assms have "list_all (\<lambda>kp. player_ok (snd kp)) playerMap"
    using occurrences_plain [of rs] by (auto intro: credit_all_ok)
  then show "list_all player_ok players"
    unfolding players by (simp add: list_all_iff)
qed

theorem wins_sum_invariant_witness:
  "list_all (\<lambda>res. categoryKey res \<notin> set Object_prototype_names)
     [\<lparr>year = 2019, category = str ''doubletten'', type = str ''championship'', poule = str ''A'',
        winners = [str ''Cedric'', str ''Jan'']\<rparr>,
      \<lparr>year = 2020, category = str ''mix'', type = str ''championship'', poule = str ''A'',
        winners = [str ''C'' @ [233] @ str ''dric'']\<rparr>]
   \<and> buildPlayerStats toLowerCase_latin1
     [\<lparr>year = 2019, category = str ''doubletten'', type = str ''championship'', poule = str ''A'',
        winners = [str ''Cedric'', str ''Jan'']\<rparr>,
      \<lparr>year = 2020, category = str ''mix'', type = str ''championship'', poule = str ''A'',
        winners = [str ''C'' @ [233] @ str ''dric'']\<rparr>]
     = Inr [\<lparr>displayName = str ''C'' @ [233] @ str ''dric'',
             wins = [(str ''championship_doubletten'', Num 1), (str ''championship_mix'', Num 1)],
             totalWins = 2\<rparr>,
            \<lparr>displayName = str ''Jan'', wins = [(str ''championship_doubletten'', Num 1)],
             totalWins = 1\<rparr>]
   \<and> list_all player_ok
        [\<lparr>displayName = str ''C'' @ [233] @ str ''dric'',
             wins = [(str ''championship_doubletten'', Num 1), (str ''championship_mix'', Num 1)],
             totalWins = 2\<rparr>,
            \<lparr>displayName = str ''Jan'', wins = [(str ''championship_doubletten'', Num 1)],
             totalWins = 1\<rparr>]"
proof -
  let ?rs = "[\<lparr>year = 2019, category = str ''doubletten'', type = str ''championship'', poule = str ''A'',
        winners = [str ''Cedric'', str ''Jan'']\<rparr>,
      \<lparr>year = 2020, category = str ''mix'', type = str ''championship'', poule = str ''A'',
        winners = [str ''C'' @ [233] @ str ''dric'']\<rparr>]"
  have plain: "list_all (\<lambda>res. categoryKey res \<notin> set Object_prototype_names) ?rs"
    by (simp add: categoryKey_def Object_prototype_names_def str_def)
  have built: "buildPlayerStats toLowerCase_latin1 ?rs
     = Inr [\<lparr>displayName = str ''C'' @ [233] @ str ''dric'',
             wins = [(str ''championship_doubletten'', Num 1), (str ''championship_mix'', Num 1)],
             totalWins = 2\<rparr>,
            \<lparr>displayName = str ''Jan'', wins = [(str ''championship_doubletten'', Num 1)],
             totalWins = 1\<rparr>]"
    by (simp add: aggregate_eval names_eval string_eval)
  from wins_sum_invariant [OF plain, of toLowerCase_latin1]
  have "\<forall>players. buildPlayerStats toLowerCase_latin1 ?rs = Inr players \<longrightarrow> list_all player_ok players"
    by (rule conjunct2)
  with built have "list_all player_ok
        [\<lparr>displayName = str ''C'' @ [233] @ str ''dric'',
             wins = [(str ''championship_doubletten'', Num 1), (str ''championship_mix'', Num 1)],
             totalWins = 2\<rparr>,
            \<lparr>displayName = str ''Jan'', wins = [(str ''championship_doubletten'', Num 1)],
             totalWins = 1\<rparr>]"
    by blast
  with plain built show ?thesis
    by (intro conjI)
qed

section \<open>Players and keys\<close>

text \<open>
  The key under which \<^verbatim>\<open>buildPlayerStats\<close> files a winner name:
  \<^verbatim>\<open>normalizeName(applyNameMapping(name))\<close>; and the total stored under a key.
\<close>

definition player_key :: "(jsstring \<Rightarrow> jsstring) \<Rightarrow> jsstring \<Rightarrow> jsstring option" where
  "player_key toLowerCase nm =
     (case applyNameMapping toLowerCase nm of
        Str canonicalName \<Rightarrow> Some (normalizeName toLowerCase canonicalName)
      | NotAString \<Rightarrow> None)"

definition total_of :: "(jsstring \<times> player) list \<Rightarrow> jsstring \<Rightarrow> nat" where
  "total_of pm k = (case map_of pm k of None \<Rightarrow> 0 | Some p \<Rightarrow> totalWins p)"

lemma map_of_set_own_eq: "map_of (set_own obj k v) = (map_of obj)(k \<mapsto> v)"
  by (induction obj) (auto simp: fun_eq_iff)

lemma keys_set_own: "fst ` set (set_own obj k v) = insert k (fst ` set obj)"
proof -
  have "dom (map_of (set_own obj k v)) = insert k (dom (map_of obj))"
    by (simp add: map_of_set_own_eq)
  then show ?thesis
    by (simp only: dom_map_of_conv_image_fst)
qed

lemma distinct_set_own:
  "distinct (map fst obj) \<Longrightarrow> distinct (map fst (set_own obj k v))"
  by (induction obj) (auto simp: keys_set_own)

lemma credit_map_of:
  assumes "credit lc res pm nm = Inr pm'"
  obtains c where "applyNameMapping lc nm = Str c"
    and "player_key lc nm = Some (normalizeName lc c)"
    and "map_of pm' = (map_of pm)(normalizeName lc c \<mapsto>
           (entry_for pm (normalizeName lc c) c)
              \<lparr>wins := count_win (wins (entry_for pm (normalizeName lc c) c)) (categoryKey res),
               totalWins := totalWins (entry_for pm (normalizeName lc c) c) + 1\<rparr>)"
    and "distinct (map fst pm) \<longrightarrow> distinct (map fst pm')"
proof -
  from assms obtain c where c: "applyNameMapping lc nm = Str c"
    and pm': "pm' = set_own pm (normalizeName lc c)
           ((entry_for pm (normalizeName lc c) c)
              \<lparr>wins := count_win (wins (entry_for pm (normalizeName lc c) c)) (categoryKey res),
               totalWins := totalWins (entry_for pm (normalizeName lc c) c) + 1\<rparr>)"
    by (rule credit_Inr)
  show thesis
  proof (rule that [of c])
    show "applyNameMapping lc nm = Str c" by (rule c)
    show "player_key lc nm = Some (normalizeName lc c)"
      by (simp add: player_key_def c)
    show "map_of pm' = (map_of pm)(normalizeName lc c \<mapsto>
           (entry_for pm (normalizeName lc c) c)
              \<lparr>wins := count_win (wins (entry_for pm (normalizeName lc c) c)) (categoryKey res),
               totalWins := totalWins (entry_for pm (normalizeName lc c) c) + 1\<rparr>)"
      unfolding pm' by (rule map_of_set_own_eq)
    show "distinct (map fst pm) \<longrightarrow> distinct (map fst pm')"
      unfolding pm' by (simp add: distinct_set_own)
  qed
qed

lemma totalWins_entry_for: "totalWins (entry_for pm k c) = total_of pm k"
  by (simp add: entry_for_def total_of_def split: option.splits)

lemma displayName_entry_for:
  "displayName (entry_for pm k c) =
     (case map_of pm k of
        None \<Rightarrow> c
      | Some p \<Rightarrow> if countDiacritics c > countDiacritics (displayName p) then c else displayName p)"
  by (simp add: entry_for_def split: option.splits)

lemma credit_total:
  assumes "credit lc res pm nm = Inr pm'"
  shows "total_of pm' k = total_of pm k + (if player_key lc nm = Some k then 1 else 0)"
proof -
  from assms obtain c where "player_key lc nm = Some (normalizeName lc c)"
    and "map_of pm' = (map_of pm)(normalizeName lc c \<mapsto>
           (entry_for pm (normalizeName lc c) c)
              \<lparr>wins := count_win (wins (entry_for pm (normalizeName lc c) c)) (categoryKey res),
               totalWins := totalWins (entry_for pm (normalizeName lc c) c) + 1\<rparr>)"
    by (rule credit_map_of)
  then show ?thesis
    by (simp add: total_of_def totalWins_entry_for [unfolded total_of_def])
qed

lemma credit_all_total:
  assumes "credit_all lc pm occs = Inr pm'"
  shows "total_of pm' k
           = total_of pm k + length (filter (\<lambda>occ. player_key lc (snd occ) = Some k) occs)"
  using assms
proof (induction occs arbitrary: pm)
  case Nil
  then show ?case by simp
next
  case (Cons occ occs)
  from Cons.prems obtain pm1 where first: "credit lc (fst occ) pm (snd occ) = Inr pm1"
    and rest: "credit_all lc pm1 occs = Inr pm'"
    by (auto split: sum.splits)
  from Cons.IH [OF rest] credit_total [OF first, of k] show ?case
    by simp
qed

lemma credit_all_distinct:
  assumes "credit_all lc pm occs = Inr pm'" and "distinct (map fst pm)"
  shows "distinct (map fst pm')"
  using assms
proof (induction occs arbitrary: pm)
  case Nil
  then show ?case by simp
next
  case (Cons occ occs)
  from Cons.prems(1) obtain pm1 where first: "credit lc (fst occ) pm (snd occ) = Inr pm1"
    and rest: "credit_all lc pm1 occs = Inr pm'"
    by (auto split: sum.splits)
  from first Cons.prems(2) have "distinct (map fst pm1)"
    by (auto elim: credit_map_of)
  with rest show ?case by (rule Cons.IH)
qed

lemma credit_display:
  assumes "credit lc res pm nm = Inr pm1"
  shows "\<exists>c p1. applyNameMapping lc nm = Str c
    \<and> (\<forall>k. k \<noteq> normalizeName lc c \<longrightarrow> map_of pm1 k = map_of pm k)
    \<and> map_of pm1 (normalizeName lc c) = Some p1
    \<and> countDiacritics c \<le> countDiacritics (displayName p1)
    \<and> (map_of pm (normalizeName lc c) = None \<longrightarrow> displayName p1 = c)
    \<and> (\<forall>p. map_of pm (normalizeName lc c) = Some p \<longrightarrow>
           (displayName p1 = c \<or> displayName p1 = displayName p)
           \<and> countDiacritics (displayName p) \<le> countDiacritics (displayName p1))"
proof -
  from assms obtain c where c: "applyNameMapping lc nm = Str c"
    and m: "map_of pm1 = (map_of pm)(normalizeName lc c \<mapsto>
           (entry_for pm (normalizeName lc c) c)
              \<lparr>wins := count_win (wins (entry_for pm (normalizeName lc c) c)) (categoryKey res),
               totalWins := totalWins (entry_for pm (normalizeName lc c) c) + 1\<rparr>)"
    by (rule credit_map_of)
  define p1 where "p1 = (entry_for pm (normalizeName lc c) c)
              \<lparr>wins := count_win (wins (entry_for pm (normalizeName lc c) c)) (categoryKey res),
               totalWins := totalWins (entry_for pm (normalizeName lc c) c) + 1\<rparr>"
  have d: "displayName p1 = (case map_of pm (normalizeName lc c) of
        None \<Rightarrow> c
      | Some p \<Rightarrow> if countDiacritics c > countDiacritics (displayName p) then c else displayName p)"
    by (simp add: p1_def displayName_entry_for)
  have f1: "\<forall>k. k \<noteq> normalizeName lc c \<longrightarrow> map_of pm1 k = map_of pm k"
    by (simp add: m)
  have f2: "map_of pm1 (normalizeName lc c) = Some p1"
    by (simp add: m p1_def)
  have f3: "countDiacritics c \<le> countDiacritics (displayName p1)"
    by (simp add: d split: option.splits)
  have f4: "map_of pm (normalizeName lc c) = None \<longrightarrow> displayName p1 = c"
    by (simp add: d)
  have f5: "\<forall>p. map_of pm (normalizeName lc c) = Some p \<longrightarrow>
           (displayName p1 = c \<or> displayName p1 = displayName p)
           \<and> countDiacritics (displayName p) \<le> countDiacritics (displayName p1)"
    by (simp add: d)
  show ?thesis
    by (rule exI [of _ c], rule exI [of _ p1]) (intro conjI c f1 f2 f3 f4 f5)
qed

lemma credit_keeps:
  assumes "credit lc res pm nm = Inr pm1" and "map_of pm k = Some p"
  shows "\<exists>p1. map_of pm1 k = Some p1
           \<and> countDiacritics (displayName p) \<le> countDiacritics (displayName p1)"
proof -
  from credit_display [OF assms(1)] obtain c p1
    where f1: "\<forall>k. k \<noteq> normalizeName lc c \<longrightarrow> map_of pm1 k = map_of pm k"
      and f2: "map_of pm1 (normalizeName lc c) = Some p1"
      and f5: "\<forall>p. map_of pm (normalizeName lc c) = Some p \<longrightarrow>
           (displayName p1 = c \<or> displayName p1 = displayName p)
           \<and> countDiacritics (displayName p) \<le> countDiacritics (displayName p1)"
    by blast
  show ?thesis
  proof (cases "k = normalizeName lc c")
    case True
    with assms(2) f5 have "countDiacritics (displayName p) \<le> countDiacritics (displayName p1)"
      by simp
    with True f2 show ?thesis by simp
  next
    case False
    with f1 assms(2) have "map_of pm1 k = Some p" by simp
    then show ?thesis by simp
  qed
qed

lemma credit_all_keeps:
  assumes "credit_all lc pm occs = Inr pm'" and "map_of pm k = Some p"
  shows "\<exists>p'. map_of pm' k = Some p'
           \<and> countDiacritics (displayName p) \<le> countDiacritics (displayName p')"
  using assms
proof (induction occs arbitrary: pm p)
  case Nil
  then show ?case by simp
next
  case (Cons occ occs)
  from Cons.prems(1) obtain pm1 where first: "credit lc (fst occ) pm (snd occ) = Inr pm1"
    and rest: "credit_all lc pm1 occs = Inr pm'"
    by (auto split: sum.splits)
  from credit_keeps [OF first Cons.prems(2)] obtain p1 where p1: "map_of pm1 k = Some p1"
    and le1: "countDiacritics (displayName p) \<le> countDiacritics (displayName p1)"
    by blast
  from Cons.IH [OF rest p1] obtain p' where p': "map_of pm' k = Some p'"
    and le2: "countDiacritics (displayName p1) \<le> countDiacritics (displayName p')"
    by blast
  from le1 le2 have "countDiacritics (displayName p) \<le> countDiacritics (displayName p')"
    by (rule le_trans)
  with p' show ?case by simp
qed

lemma credit_all_most:
  assumes "credit_all lc pm occs = Inr pm'"
    and "occ \<in> set occs" and "applyNameMapping lc (snd occ) = Str c"
  shows "\<exists>p'. map_of pm' (normalizeName lc c) = Some p'
           \<and> countDiacritics c \<le> countDiacritics (displayName p')"
  using assms(1,2)
proof (induction occs arbitrary: pm)
  case Nil
  then show ?case by simp
next
  case (Cons o1 occs)
  from Cons.prems(1) obtain pm1 where first: "credit lc (fst o1) pm (snd o1) = Inr pm1"
    and rest: "credit_all lc pm1 occs = Inr pm'"
    by (auto split: sum.splits)
  show ?case
  proof (cases "occ \<in> set occs")
    case True
    with rest show ?thesis by (rule Cons.IH)
  next
    case False
    with Cons.prems(2) have "o1 = occ" by simp
    with credit_display [OF first] assms(3) obtain p1
      where p1: "map_of pm1 (normalizeName lc c) = Some p1"
        and le1: "countDiacritics c \<le> countDiacritics (displayName p1)"
      by auto
    from credit_all_keeps [OF rest p1] obtain p' where p': "map_of pm' (normalizeName lc c) = Some p'"
      and le2: "countDiacritics (displayName p1) \<le> countDiacritics (displayName p')"
      by blast
    from le1 le2 have "countDiacritics c \<le> countDiacritics (displayName p')"
      by (rule le_trans)
    with p' show ?thesis by simp
  qed
qed

lemma credit_origin:
  assumes "credit lc res pm nm = Inr pm1" and "map_of pm1 k = Some p1"
  shows "(applyNameMapping lc nm = Str (displayName p1) \<and> normalizeName lc (displayName p1) = k)
       \<or> (\<exists>p. map_of pm k = Some p \<and> displayName p1 = displayName p)"
proof -
  from assms(1) obtain c where c: "applyNameMapping lc nm = Str c"
    and m: "map_of pm1 = (map_of pm)(normalizeName lc c \<mapsto>
           (entry_for pm (normalizeName lc c) c)
              \<lparr>wins := count_win (wins (entry_for pm (normalizeName lc c) c)) (categoryKey res),
               totalWins := totalWins (entry_for pm (normalizeName lc c) c) + 1\<rparr>)"
    by (rule credit_map_of)
  show ?thesis
  proof (cases "k = normalizeName lc c")
    case False
    with m assms(2) have "map_of pm k = Some p1" by simp
    then show ?thesis by simp
  next
    case True
    with m assms(2) have "displayName p1 = displayName (entry_for pm k c)"
      by auto
    then have d: "displayName p1 = (case map_of pm k of
        None \<Rightarrow> c
      | Some p \<Rightarrow> if countDiacritics c > countDiacritics (displayName p) then c else displayName p)"
      by (simp only: displayName_entry_for)
    show ?thesis
    proof (cases "map_of pm k")
      case None
      with d have "displayName p1 = c" by simp
      with c True show ?thesis by simp
    next
      case (Some p)
      show ?thesis
      proof (cases "countDiacritics c > countDiacritics (displayName p)")
        case True
        with d Some have "displayName p1 = c" by simp
        with c \<open>k = normalizeName lc c\<close> show ?thesis by simp
      next
        case False
        with d Some have "displayName p1 = displayName p" by simp
        with Some show ?thesis by simp
      qed
    qed
  qed
qed

lemma credit_all_origin:
  assumes "credit_all lc pm occs = Inr pm'" and "map_of pm' k = Some p'"
  shows "(\<exists>occ\<in>set occs. applyNameMapping lc (snd occ) = Str (displayName p')
              \<and> normalizeName lc (displayName p') = k)
          \<or> (\<exists>p. map_of pm k = Some p \<and> displayName p' = displayName p)"
  using assms
proof (induction occs arbitrary: pm)
  case Nil
  then show ?case by simp
next
  case (Cons o1 occs)
  from Cons.prems(1) obtain pm1 where first: "credit lc (fst o1) pm (snd o1) = Inr pm1"
    and rest: "credit_all lc pm1 occs = Inr pm'"
    by (auto split: sum.splits)
  from Cons.IH [OF rest Cons.prems(2)] show ?case
  proof
    assume "\<exists>occ\<in>set occs. applyNameMapping lc (snd occ) = Str (displayName p')
              \<and> normalizeName lc (displayName p') = k"
    then show ?thesis by auto
  next
    assume "\<exists>p. map_of pm1 k = Some p \<and> displayName p' = displayName p"
    then obtain p1 where p1: "map_of pm1 k = Some p1" and eq: "displayName p' = displayName p1"
      by blast
    from credit_origin [OF first p1] show ?thesis
    proof
      assume "applyNameMapping lc (snd o1) = Str (displayName p1) \<and> normalizeName lc (displayName p1) = k"
      with eq show ?thesis by simp
    next
      assume "\<exists>p. map_of pm k = Some p \<and> displayName p1 = displayName p"
      with eq show ?thesis by simp
    qed
  qed
qed

lemma credit_all_present:
  assumes "credit_all lc pm occs = Inr pm'"
  shows "(map_of pm' k = None) \<longleftrightarrow>
           (map_of pm k = None \<and> (\<forall>occ\<in>set occs. player_key lc (snd occ) \<noteq> Some k))"
  using assms
proof (induction occs arbitrary: pm)
  case Nil
  then show ?case by simp
next
  case (Cons occ occs)
  from Cons.prems(1) obtain pm1 where first: "credit lc (fst occ) pm (snd occ) = Inr pm1"
    and rest: "credit_all lc pm1 occs = Inr pm'"
    by (auto split: sum.splits)
  from first obtain c where "player_key lc (snd occ) = Some (normalizeName lc c)"
    and "map_of pm1 = (map_of pm)(normalizeName lc c \<mapsto>
           (entry_for pm (normalizeName lc c) c)
              \<lparr>wins := count_win (wins (entry_for pm (normalizeName lc c) c)) (categoryKey (fst occ)),
               totalWins := totalWins (entry_for pm (normalizeName lc c) c) + 1\<rparr>)"
    by (rule credit_map_of)
  with Cons.IH [OF rest] show ?case
    by auto
qed

lemma credit_all_succeeds:
  assumes "list_all (\<lambda>occ. applyNameMapping lc (snd occ) \<noteq> NotAString) occs"
  shows "\<exists>pm'. credit_all lc pm occs = Inr pm'"
  using assms
proof (induction occs arbitrary: pm)
  case Nil
  then show ?case by simp
next
  case (Cons occ occs)
  from Cons.prems obtain c where "applyNameMapping lc (snd occ) = Str c"
    by (cases "applyNameMapping lc (snd occ)") auto
  then obtain pm1 where "credit lc (fst occ) pm (snd occ) = Inr pm1"
    by (simp add: credit_def Let_def)
  moreover from Cons.prems have "\<exists>pm'. credit_all lc pm1 occs = Inr pm'"
    by (intro Cons.IH) simp
  ultimately show ?case by auto
qed

lemma set_occurrences:
  "set (occurrences rs) = {(res, nm). res \<in> set rs \<and> nm \<in> set (winners res)}"
  by (auto simp: occurrences_def)

lemma credit_all_names:
  assumes "credit_all lc pm occs = Inr pm'" and "occ \<in> set occs"
  shows "\<exists>c. applyNameMapping lc (snd occ) = Str c"
  using assms
proof (induction occs arbitrary: pm)
  case Nil
  then show ?case by simp
next
  case (Cons o1 occs)
  from Cons.prems(1) obtain pm1 where first: "credit lc (fst o1) pm (snd o1) = Inr pm1"
    and rest: "credit_all lc pm1 occs = Inr pm'"
    by (auto split: sum.splits)
  show ?case
  proof (cases "occ \<in> set occs")
    case True
    with rest show ?thesis by (rule Cons.IH)
  next
    case False
    with Cons.prems(2) have "o1 = occ" by simp
    with first show ?thesis
      by (auto elim: credit_Inr)
  qed
qed

lemma entry_key:
  assumes "credit_all lc [] occs = Inr pm" and "(k, p) \<in> set pm"
  shows "map_of pm k = Some p \<and> normalizeName lc (displayName p) = k"
proof -
  from assms(1) have "distinct (map fst pm)"
    by (rule credit_all_distinct) simp
  with assms(2) have m: "map_of pm k = Some p"
    by simp
  from credit_all_origin [OF assms(1) m] have "normalizeName lc (displayName p) = k"
    by auto
  with m show ?thesis by simp
qed

lemma distinct_map_sort_key:
  "distinct (map f xs) \<Longrightarrow> distinct (map f (sort_key g xs))"
  by (simp add: distinct_map)

lemma buildPlayerStats_Inr:
  assumes "buildPlayerStats lc rs = Inr players"
  obtains pm where "credit_all lc [] (occurrences rs) = Inr pm"
    and "players = sort_key (\<lambda>p. - int (totalWins p)) (map snd pm)"
  using assms
  by (auto simp: buildPlayerStats_def credit_results_occurrences split: sum.splits)

text \<open>
  One player per key: the players returned have pairwise different keys, a player's
  total is the number of winner occurrences with the player's key, and every occurrence
  has the key of a player.
\<close>

lemma players_by_key:
  assumes "buildPlayerStats lc rs = Inr players"
  shows "distinct (map (\<lambda>p. normalizeName lc (displayName p)) players)"
    and "p \<in> set players \<Longrightarrow>
           totalWins p = length (filter (\<lambda>occ. player_key lc (snd occ)
                                           = Some (normalizeName lc (displayName p))) (occurrences rs))"
    and "occ \<in> set (occurrences rs) \<Longrightarrow>
           \<exists>p\<in>set players. player_key lc (snd occ) = Some (normalizeName lc (displayName p))"
proof -
  from assms obtain pm where run: "credit_all lc [] (occurrences rs) = Inr pm"
    and players: "players = sort_key (\<lambda>p. - int (totalWins p)) (map snd pm)"
    by (rule buildPlayerStats_Inr)
  have key: "map_of pm k = Some p \<and> normalizeName lc (displayName p) = k" if "(k, p) \<in> set pm" for k p
    using run that by (rule entry_key)
  have "map (\<lambda>p. normalizeName lc (displayName p)) (map snd pm) = map fst pm"
    using key by (auto simp: map_eq_conv)
  moreover from run have "distinct (map fst pm)"
    by (rule credit_all_distinct) simp
  ultimately have "distinct (map (\<lambda>p. normalizeName lc (displayName p)) (map snd pm))"
    by (simp only:)
  then show "distinct (map (\<lambda>p. normalizeName lc (displayName p)) players)"
    unfolding players by (rule distinct_map_sort_key)
  show "totalWins p = length (filter (\<lambda>occ. player_key lc (snd occ)
                                           = Some (normalizeName lc (displayName p))) (occurrences rs))"
    if "p \<in> set players"
  proof -
    from that obtain k where "(k, p) \<in> set pm"
      unfolding players by auto
    with key have m: "map_of pm k = Some p" and k: "normalizeName lc (displayName p) = k"
      by simp_all
    from credit_all_total [OF run, of k] m have
      "totalWins p = length (filter (\<lambda>occ. player_key lc (snd occ) = Some k) (occurrences rs))"
      by (simp add: total_of_def)
    with k show ?thesis by simp
  qed
  show "\<exists>p\<in>set players. player_key lc (snd occ) = Some (normalizeName lc (displayName p))"
    if "occ \<in> set (occurrences rs)"
  proof -
    from credit_all_names [OF run that] obtain c where c: "applyNameMapping lc (snd occ) = Str c"
      by blast
    from credit_all_most [OF run that c] obtain p where m: "map_of pm (normalizeName lc c) = Some p"
      by blast
    then have "(normalizeName lc c, p) \<in> set pm"
      by (rule map_of_SomeD)
    with key have "normalizeName lc (displayName p) = normalizeName lc c" and "p \<in> set players"
      unfolding players by force+
    with c show ?thesis
      by (auto simp: player_key_def intro!: bexI [of _ p])
  qed
qed

section \<open>Spellings of a name\<close>

text \<open>
  The accent families that \<^verbatim>\<open>normalizeName\<close> lists, each with its base letter, and the
  seven \<^verbatim>\<open>replace\<close> calls as one map over the code units.
\<close>

definition accent_families :: "(nat list \<times> nat) list" where
  "accent_families =
     [([233, 232, 234, 235], 101), ([225, 224, 226, 228], 97), ([237, 236, 238, 239], 105),
      ([243, 242, 244, 246], 111), ([250, 249, 251, 252], 117), ([231], 99), ([241], 110)]"

definition fold_families :: "(nat list \<times> nat) list \<Rightarrow> nat \<Rightarrow> nat" where
  "fold_families fams c = foldl (\<lambda>x fb. if x \<in> set (fst fb) then snd fb else x) c fams"

definition fold_unit :: "nat \<Rightarrow> nat" where
  "fold_unit c = fold_families accent_families c"

lemma replace_classes_families:
  "foldl (\<lambda>s fb. replace_class (fst fb) (snd fb) s) s fams = map (fold_families fams) s"
proof (induction fams arbitrary: s)
  case Nil
  show ?case by (simp add: fold_families_def)
next
  case (Cons fb fams)
  have "map (fold_families fams) (replace_class (fst fb) (snd fb) s)
      = map (fold_families (fb # fams)) s"
    by (simp add: replace_class_def fold_families_def)
  with Cons [of "replace_class (fst fb) (snd fb) s"] show ?case
    by simp
qed

lemma replace_classes_fold:
  "replace_class [241] 110
     (replace_class [231] 99
       (replace_class [250, 249, 251, 252] 117
         (replace_class [243, 242, 244, 246] 111
           (replace_class [237, 236, 238, 239] 105
             (replace_class [225, 224, 226, 228] 97
               (replace_class [233, 232, 234, 235] 101 s)))))) = map fold_unit s"
proof -
  have "map fold_unit s = foldl (\<lambda>s fb. replace_class (fst fb) (snd fb) s) s accent_families"
    unfolding fold_unit_def [abs_def] by (rule replace_classes_families [symmetric])
  then show ?thesis
    by (simp add: accent_families_def)
qed

lemma fold_families_untouched:
  "list_all (\<lambda>fb. c \<notin> set (fst fb)) fams \<Longrightarrow> fold_families fams c = c"
  by (induction fams) (simp_all add: fold_families_def)

lemma fold_families_Cons:
  "fold_families (fb # fams) c = fold_families fams (if c \<in> set (fst fb) then snd fb else c)"
  by (simp add: fold_families_def)

lemma fold_families_ws:
  assumes "list_all (\<lambda>fb. list_all (\<lambda>x. \<not> is_ws x) (fst fb) \<and> \<not> is_ws (snd fb)) fams"
  shows "is_ws (fold_families fams c) = is_ws c"
  using assms
proof (induction fams arbitrary: c)
  case Nil
  show ?case by (simp add: fold_families_def)
next
  case (Cons fb fams)
  then have "is_ws (if c \<in> set (fst fb) then snd fb else c) = is_ws c"
    by (auto simp: list_all_iff)
  with Cons show ?case
    by (simp add: fold_families_Cons)
qed

lemma is_ws_fold_unit: "is_ws (fold_unit c) = is_ws c"
  unfolding fold_unit_def
  by (rule fold_families_ws) (simp add: accent_families_def is_ws_def)

lemma trim_map:
  assumes "\<And>c. is_ws (h c) = is_ws c"
  shows "trim (map h s) = map h (trim s)"
proof -
  have "is_ws \<circ> h = is_ws"
    using assms by (simp add: fun_eq_iff)
  then show ?thesis
    by (simp add: trim_def dropWhile_map rev_map)
qed

text \<open>
  Trimming and then collapsing the whitespace runs, as one pass over the string that
  remembers whether a word has been seen and whether whitespace is pending after it.
\<close>

datatype ws_state = Start | InWord | Pending

fun squeeze :: "ws_state \<Rightarrow> jsstring \<Rightarrow> jsstring" where
  "squeeze st [] = []"
| "squeeze st (c # cs) =
     (if is_ws c then squeeze (case st of Start \<Rightarrow> Start | InWord \<Rightarrow> Pending | Pending \<Rightarrow> Pending) cs
      else (case st of Pending \<Rightarrow> 32 # c # squeeze InWord cs | _ \<Rightarrow> c # squeeze InWord cs))"

definition rstrip :: "jsstring \<Rightarrow> jsstring" where
  "rstrip s = rev (dropWhile is_ws (rev s))"

lemma trim_rstrip: "trim s = rstrip (dropWhile is_ws s)"
  by (simp add: trim_def rstrip_def)

lemma rstrip_Cons:
  "rstrip (x # xs) = (if is_ws x \<and> rstrip xs = [] then [] else x # rstrip xs)"
  by (auto simp: rstrip_def dropWhile_append)

lemma rstrip_last: "rstrip s \<noteq> [] \<Longrightarrow> \<not> is_ws (last (rstrip s))"
  unfolding rstrip_def
  by (metis hd_dropWhile last_rev rev_is_Nil_conv)

lemma lstrip_rstrip_nonempty: "rstrip s \<noteq> [] \<Longrightarrow> dropWhile is_ws (rstrip s) \<noteq> []"
proof
  assume ne: "rstrip s \<noteq> []" and "dropWhile is_ws (rstrip s) = []"
  then have "\<forall>x\<in>set (rstrip s). is_ws x"
    by (simp add: dropWhile_eq_Nil_conv)
  with ne have "is_ws (last (rstrip s))"
    by simp
  with ne show False
    by (simp add: rstrip_last)
qed

lemma replace_ws_runs_nonempty: "s \<noteq> [] \<Longrightarrow> replace_ws_runs s \<noteq> []"
  by (cases s) auto

lemma squeeze_Pending:
  "squeeze Pending s = (if squeeze Start s = [] then [] else 32 # squeeze Start s)"
  by (induction s) auto

lemma squeeze_rstrip:
  "replace_ws_runs (rstrip s) = squeeze InWord s
   \<and> replace_ws_runs (dropWhile is_ws (rstrip s)) = squeeze Start s"
proof (induction s)
  case Nil
  then show ?case by (simp add: rstrip_def)
next
  case (Cons x xs)
  show ?case
  proof (cases "is_ws x")
    case False
    with Cons show ?thesis
      by (simp add: rstrip_Cons)
  next
    case ws: True
    show ?thesis
    proof (cases "rstrip xs = []")
      case True
      with Cons have "squeeze Start xs = []" by simp
      with True ws show ?thesis
        by (simp add: rstrip_Cons squeeze_Pending)
    next
      case False
      then have "dropWhile is_ws (rstrip xs) \<noteq> []"
        by (rule lstrip_rstrip_nonempty)
      then have "replace_ws_runs (dropWhile is_ws (rstrip xs)) \<noteq> []"
        by (rule replace_ws_runs_nonempty)
      with Cons have "squeeze Start xs \<noteq> []" by simp
      with False ws Cons show ?thesis
        by (simp add: rstrip_Cons squeeze_Pending)
    qed
  qed
qed

lemma squeeze_Start_lstrip: "squeeze Start (dropWhile is_ws s) = squeeze Start s"
  by (induction s) auto

lemma squeeze_InWord_lstrip: "squeeze InWord (dropWhile is_ws s) = squeeze Start s"
proof (induction s)
  case Nil
  then show ?case by simp
next
  case (Cons x xs)
  then show ?case by simp
qed

lemma collapse_trim: "replace_ws_runs (trim s) = squeeze Start s"
  by (simp add: trim_rstrip squeeze_rstrip squeeze_InWord_lstrip)

lemma normalizeName_squeeze:
  "normalizeName toLowerCase s = squeeze Start (map fold_unit (toLowerCase s))"
proof -
  have "normalizeName toLowerCase s = replace_ws_runs (map fold_unit (trim (toLowerCase s)))"
    by (simp add: normalizeName_def replace_classes_fold)
  also have "map fold_unit (trim (toLowerCase s)) = trim (map fold_unit (toLowerCase s))"
    by (rule trim_map [symmetric]) (rule is_ws_fold_unit)
  finally show ?thesis
    by (simp only: collapse_trim)
qed

text \<open>
  The spec's words: two names differ only in case, in the listed accent families, in
  leading or trailing whitespace, or in internal whitespace runs. Case is what
  \<^verbatim>\<open>toLowerCase\<close> removes, whatever the alphabet: the names are compared in their
  lower-cased forms. On these, the other differences are a relation: the least
  equivalence that contains each such single difference (an accented letter of a listed
  family for its base, a whitespace unit more or less at an end or in a run, another
  whitespace unit in a run). Two names that differ only in case have the same lower-cased
  form, which the relation relates to itself.
\<close>

inductive spelling_variant :: "jsstring \<Rightarrow> jsstring \<Rightarrow> bool" where
  same: "spelling_variant a a"
| accent: "(family, base) \<in> set accent_families \<Longrightarrow> c \<in> set family \<Longrightarrow>
     spelling_variant (u @ c # v) (u @ base # v)"
| leading: "is_ws w \<Longrightarrow> spelling_variant (w # a) a"
| trailing: "is_ws w \<Longrightarrow> spelling_variant (a @ [w]) a"
| run_length: "is_ws w \<Longrightarrow> is_ws w' \<Longrightarrow> spelling_variant (u @ w # w' # v) (u @ w # v)"
| run_unit: "is_ws w \<Longrightarrow> is_ws w' \<Longrightarrow> spelling_variant (u @ w # v) (u @ w' # v)"
| sym: "spelling_variant a b \<Longrightarrow> spelling_variant b a"
| trans: "spelling_variant a b \<Longrightarrow> spelling_variant b c \<Longrightarrow> spelling_variant a c"

lemma variant_refl: "spelling_variant a a"
  by (rule same)

text \<open>Variants have the same key.\<close>

lemma fold_unit_families:
  "list_all (\<lambda>fb. list_all (\<lambda>c. fold_unit c = snd fb) (fst fb) \<and> fold_unit (snd fb) = snd fb)
     accent_families"
proof -
  have "list_all (\<lambda>fb. list_all (\<lambda>c. fold_unit c = snd fb) (fst fb) \<and> fold_unit (snd fb) = snd fb)
     [([233, 232, 234, 235], 101), ([225, 224, 226, 228], 97), ([237, 236, 238, 239], 105),
      ([243, 242, 244, 246], 111), ([250, 249, 251, 252], 117), ([231], 99), ([241], 110)]"
    apply (simp only: list.pred_inject fst_conv snd_conv)
    apply (simp add: fold_unit_def fold_families_def accent_families_def)
    done
  then show ?thesis
    by (simp only: accent_families_def)
qed

lemma fold_unit_accent:
  assumes "(family, base) \<in> set accent_families" and "c \<in> set family"
  shows "fold_unit c = base \<and> fold_unit base = base"
proof -
  from fold_unit_families assms(1)
  have "list_all (\<lambda>c. fold_unit c = base) family \<and> fold_unit base = base"
    unfolding list_all_iff by fastforce
  with assms(2) show ?thesis
    by (simp add: list_all_iff)
qed

lemma squeeze_run_length:
  "is_ws w \<Longrightarrow> is_ws w' \<Longrightarrow> squeeze st (u @ w # w' # v) = squeeze st (u @ w # v)"
  by (induction u arbitrary: st) (auto split: ws_state.splits)

lemma squeeze_run_unit:
  "is_ws w \<Longrightarrow> is_ws w' \<Longrightarrow> squeeze st (u @ w # v) = squeeze st (u @ w' # v)"
  by (induction u arbitrary: st) (auto split: ws_state.splits)

lemma squeeze_trailing: "is_ws w \<Longrightarrow> squeeze st (a @ [w]) = squeeze st a"
  by (induction a arbitrary: st) (auto split: ws_state.splits)

lemma variant_same_key:
  assumes "spelling_variant a b"
  shows "squeeze Start (map fold_unit a) = squeeze Start (map fold_unit b)"
  using assms
proof (induction rule: spelling_variant.induct)
  case (same a)
  show ?case by simp
next
  case (accent family base c u v)
  then have "fold_unit c = fold_unit base"
    using fold_unit_accent by metis
  then show ?case by simp
next
  case (leading w a)
  then show ?case by (simp add: is_ws_fold_unit)
next
  case (trailing w a)
  then show ?case by (simp add: is_ws_fold_unit squeeze_trailing)
next
  case (run_length w w' u v)
  then show ?case
    by (simp add: is_ws_fold_unit squeeze_run_length)
next
  case (run_unit w w' u v)
  then have "squeeze Start (map fold_unit u @ fold_unit w # map fold_unit v)
           = squeeze Start (map fold_unit u @ fold_unit w' # map fold_unit v)"
    by (intro squeeze_run_unit) (simp_all add: is_ws_fold_unit)
  then show ?case by simp
next
  case (sym a b)
  then show ?case by simp
next
  case (trans a b c)
  then show ?case by simp
qed

text \<open>A lower-cased name is a variant of its key.\<close>

lemma variant_lstrip: "spelling_variant s (dropWhile is_ws s)"
proof (induction s)
  case Nil
  show ?case by (simp add: variant_refl)
next
  case (Cons x xs)
  show ?case
  proof (cases "is_ws x")
    case True
    then have "spelling_variant (x # xs) xs" by (rule leading)
    with Cons True show ?thesis
      by (auto intro: trans)
  next
    case False
    then show ?thesis by (simp add: variant_refl)
  qed
qed

lemma rstrip_snoc: "rstrip (xs @ [x]) = (if is_ws x then rstrip xs else xs @ [x])"
  by (simp add: rstrip_def)

lemma variant_rstrip: "spelling_variant s (rstrip s)"
proof (induction s rule: rev_induct)
  case Nil
  show ?case by (simp add: rstrip_def variant_refl)
next
  case (snoc x xs)
  show ?case
  proof (cases "is_ws x")
    case True
    then have "spelling_variant (xs @ [x]) xs" by (rule trailing)
    with snoc True show ?thesis
      by (auto simp: rstrip_snoc intro: trans)
  next
    case False
    then show ?thesis by (simp add: rstrip_snoc variant_refl)
  qed
qed

lemma fold_families_family:
  assumes "list_all (\<lambda>fb. list_all (\<lambda>fb'. snd fb \<notin> set (fst fb')) fams) fams"
    and "fold_families fams c \<noteq> c"
  shows "\<exists>family. (family, fold_families fams c) \<in> set fams \<and> c \<in> set family"
proof -
  have "\<exists>family. (family, fold_families fams' c) \<in> set fams' \<and> c \<in> set family"
    if "set fams' \<subseteq> set fams" and "fold_families fams' c \<noteq> c" for fams'
    using that
  proof (induction fams')
    case Nil
    then show ?case by (simp add: fold_families_def)
  next
    case (Cons fb fams')
    show ?case
    proof (cases "c \<in> set (fst fb)")
      case True
      from Cons.prems(1) have "fb \<in> set fams" by simp
      with assms(1) have "list_all (\<lambda>fb'. snd fb \<notin> set (fst fb')) fams"
        by (simp add: list_all_iff)
      with Cons.prems(1) have "list_all (\<lambda>fb'. snd fb \<notin> set (fst fb')) fams'"
        by (auto simp: list_all_iff)
      then have "fold_families fams' (snd fb) = snd fb"
        by (rule fold_families_untouched)
      with True have "fold_families (fb # fams') c = snd fb"
        by (simp add: fold_families_Cons)
      with True show ?thesis
        by (intro exI [of _ "fst fb"]) simp
    next
      case False
      then have same: "fold_families (fb # fams') c = fold_families fams' c"
        by (simp add: fold_families_Cons)
      with Cons.prems have "\<exists>family. (family, fold_families fams' c) \<in> set fams' \<and> c \<in> set family"
        by (intro Cons.IH) simp_all
      with same show ?thesis by auto
    qed
  qed
  from this [of fams] assms(2) show ?thesis by simp
qed

lemma fold_unit_family:
  assumes "fold_unit c \<noteq> c"
  shows "\<exists>family. (family, fold_unit c) \<in> set accent_families \<and> c \<in> set family"
  using assms unfolding fold_unit_def
  by (intro fold_families_family) (simp_all add: accent_families_def)

lemma variant_fold: "spelling_variant (u @ s) (u @ map fold_unit s)"
proof (induction s arbitrary: u)
  case Nil
  show ?case by (simp add: variant_refl)
next
  case (Cons c s)
  have first: "spelling_variant (u @ c # s) (u @ fold_unit c # s)"
  proof (cases "fold_unit c = c")
    case True
    then show ?thesis by (simp add: variant_refl)
  next
    case False
    then obtain family where "(family, fold_unit c) \<in> set accent_families" and "c \<in> set family"
      using fold_unit_family by blast
    then show ?thesis by (rule accent)
  qed
  from Cons [of "u @ [fold_unit c]"]
  have "spelling_variant (u @ fold_unit c # s) (u @ fold_unit c # map fold_unit s)"
    by simp
  with first show ?case
    by (auto intro: trans)
qed

lemma variant_run:
  assumes "is_ws w"
  shows "spelling_variant (u @ w # cs) (u @ w # dropWhile is_ws cs)"
proof (induction cs)
  case Nil
  show ?case by (simp add: variant_refl)
next
  case (Cons x xs)
  show ?case
  proof (cases "is_ws x")
    case True
    with assms have "spelling_variant (u @ w # x # xs) (u @ w # xs)"
      by (rule run_length)
    with Cons True show ?thesis
      by (auto intro: trans)
  next
    case False
    then show ?thesis by (simp add: variant_refl)
  qed
qed

lemma variant_collapse: "spelling_variant (u @ s) (u @ replace_ws_runs s)"
proof (induction s arbitrary: u rule: replace_ws_runs.induct)
  case 1
  show ?case by (simp add: variant_refl)
next
  case (2 c cs)
  show ?case
  proof (cases "is_ws c")
    case True
    have space: "is_ws 32" by (simp add: is_ws_def)
    from True space have a: "spelling_variant (u @ c # cs) (u @ 32 # cs)"
      by (rule run_unit)
    from space have b: "spelling_variant (u @ 32 # cs) (u @ 32 # dropWhile is_ws cs)"
      by (rule variant_run)
    from 2(1) [OF True, of "u @ [32]"]
    have c: "spelling_variant (u @ 32 # dropWhile is_ws cs)
               (u @ 32 # replace_ws_runs (dropWhile is_ws cs))"
      by simp
    from a b c have "spelling_variant (u @ c # cs) (u @ 32 # replace_ws_runs (dropWhile is_ws cs))"
      by (blast intro: trans)
    with True show ?thesis by simp
  next
    case False
    from 2(2) [OF False, of "u @ [c]"] False show ?thesis by simp
  qed
qed

lemma variant_of_key:
  "spelling_variant (toLowerCase a) (normalizeName toLowerCase a)"
proof -
  let ?l = "toLowerCase a"
  have key: "normalizeName toLowerCase a = replace_ws_runs (map fold_unit (trim ?l))"
    by (simp add: normalizeName_def replace_classes_fold)
  have s2: "spelling_variant ?l (dropWhile is_ws ?l)"
    by (rule variant_lstrip)
  have s3: "spelling_variant (dropWhile is_ws ?l) (trim ?l)"
    unfolding trim_rstrip by (rule variant_rstrip)
  have s4: "spelling_variant (trim ?l) (map fold_unit (trim ?l))"
    using variant_fold [of "[]"] by simp
  have s5: "spelling_variant (map fold_unit (trim ?l)) (replace_ws_runs (map fold_unit (trim ?l)))"
    using variant_collapse [of "[]"] by simp
  from s2 s3 s4 s5 show ?thesis
    unfolding key by (blast intro: trans)
qed

lemma same_key_iff_variant:
  "normalizeName toLowerCase a = normalizeName toLowerCase b
     \<longleftrightarrow> spelling_variant (toLowerCase a) (toLowerCase b)"
proof
  assume same_key: "normalizeName toLowerCase a = normalizeName toLowerCase b"
  have "spelling_variant (toLowerCase a) (normalizeName toLowerCase a)"
    by (rule variant_of_key)
  moreover have "spelling_variant (normalizeName toLowerCase b) (toLowerCase b)"
    by (rule sym) (rule variant_of_key)
  ultimately show "spelling_variant (toLowerCase a) (toLowerCase b)"
    unfolding same_key by (rule trans)
next
  assume "spelling_variant (toLowerCase a) (toLowerCase b)"
  then show "normalizeName toLowerCase a = normalizeName toLowerCase b"
    unfolding normalizeName_squeeze by (rule variant_same_key)
qed

text \<open>
  C1. For every \<^verbatim>\<open>toLowerCase\<close>, so for the built-in one on every string: two names
  have the same key exactly when they differ only in case, the listed accent families,
  leading or trailing whitespace, or internal whitespace runs, that is when their
  lower-cased forms are spelling variants. The players that the aggregator returns have
  pairwise different keys, every winner occurrence has the key
  \<^verbatim>\<open>normalizeName(applyNameMapping(name))\<close> of one of them, and a player's total counts
  exactly the occurrences with the player's key: two occurrences are credited to the same
  player exactly when their keys are equal. The names Cedric with an acute accent, cedric
  and CEDRIC followed by two spaces have the same key (these three are lower-cased as
  Latin-1 text).
\<close>

theorem player_identity:
  "(normalizeName toLowerCase a = normalizeName toLowerCase b
       \<longleftrightarrow> spelling_variant (toLowerCase a) (toLowerCase b))
   \<and> (\<forall>players. buildPlayerStats toLowerCase rs = Inr players \<longrightarrow>
         distinct (map (\<lambda>p. normalizeName toLowerCase (displayName p)) players)
         \<and> (\<forall>p\<in>set players.
               totalWins p = length (filter (\<lambda>occ. player_key toLowerCase (snd occ)
                                         = Some (normalizeName toLowerCase (displayName p)))
                                      (occurrences rs)))
         \<and> (\<forall>occ\<in>set (occurrences rs). \<exists>p\<in>set players.
               player_key toLowerCase (snd occ) = Some (normalizeName toLowerCase (displayName p))))
   \<and> normalizeName toLowerCase_latin1 (str ''C'' @ [233] @ str ''dric'')
       = normalizeName toLowerCase_latin1 (str ''cedric'')
   \<and> normalizeName toLowerCase_latin1 (str ''cedric'')
       = normalizeName toLowerCase_latin1 (str ''CEDRIC  '')"
proof (intro conjI allI impI ballI)
  show "normalizeName toLowerCase a = normalizeName toLowerCase b
       \<longleftrightarrow> spelling_variant (toLowerCase a) (toLowerCase b)"
    by (rule same_key_iff_variant)
next
  fix players
  assume built: "buildPlayerStats toLowerCase rs = Inr players"
  then show "distinct (map (\<lambda>p. normalizeName toLowerCase (displayName p)) players)"
    by (rule players_by_key(1))
  fix p
  assume "p \<in> set players"
  with built show "totalWins p = length (filter (\<lambda>occ. player_key toLowerCase (snd occ)
                                         = Some (normalizeName toLowerCase (displayName p)))
                                      (occurrences rs))"
    by (rule players_by_key(2))
next
  fix players occ
  assume "buildPlayerStats toLowerCase rs = Inr players" and "occ \<in> set (occurrences rs)"
  then show "\<exists>p\<in>set players.
               player_key toLowerCase (snd occ) = Some (normalizeName toLowerCase (displayName p))"
    by (rule players_by_key(3))
next
  show "normalizeName toLowerCase_latin1 (str ''C'' @ [233] @ str ''dric'')
       = normalizeName toLowerCase_latin1 (str ''cedric'')"
    by (simp add: names_eval string_eval)
  show "normalizeName toLowerCase_latin1 (str ''cedric'')
       = normalizeName toLowerCase_latin1 (str ''CEDRIC  '')"
    by (simp add: names_eval string_eval)
qed

theorem player_identity_witness:
  "spelling_variant (str ''c'' @ [233] @ str ''dric'') (str ''cedric  '')
   \<and> buildPlayerStats toLowerCase_latin1
       [\<lparr>year = 2019, category = str ''mix'', type = str ''championship'', poule = str ''A'',
          winners = [str ''C'' @ [233] @ str ''dric'', str ''Jan'']\<rparr>,
        \<lparr>year = 2020, category = str ''mix'', type = str ''championship'', poule = str ''A'',
          winners = [str ''CEDRIC  '']\<rparr>]
     = Inr [\<lparr>displayName = str ''C'' @ [233] @ str ''dric'',
               wins = [(str ''championship_mix'', Num 2)], totalWins = 2\<rparr>,
            \<lparr>displayName = str ''Jan'', wins = [(str ''championship_mix'', Num 1)],
               totalWins = 1\<rparr>]
   \<and> distinct (map (\<lambda>p. normalizeName toLowerCase_latin1 (displayName p))
        [\<lparr>displayName = str ''C'' @ [233] @ str ''dric'',
               wins = [(str ''championship_mix'', Num 2)], totalWins = 2\<rparr>,
            \<lparr>displayName = str ''Jan'', wins = [(str ''championship_mix'', Num 1)],
               totalWins = 1\<rparr>])"
proof -
  define rs where "rs = [\<lparr>year = 2019, category = str ''mix'', type = str ''championship'', poule = str ''A'',
          winners = [str ''C'' @ [233] @ str ''dric'', str ''Jan'']\<rparr>,
        \<lparr>year = 2020, category = str ''mix'', type = str ''championship'', poule = str ''A'',
          winners = [str ''CEDRIC  '']\<rparr>]"
  define ps where "ps = [\<lparr>displayName = str ''C'' @ [233] @ str ''dric'',
               wins = [(str ''championship_mix'', Num 2)], totalWins = 2\<rparr>,
            \<lparr>displayName = str ''Jan'', wins = [(str ''championship_mix'', Num 1)],
               totalWins = 1\<rparr>]"
  note all = player_identity [of toLowerCase_latin1 "str ''C'' @ [233] @ str ''dric''"
      "str ''CEDRIC  ''" rs]
  have built: "buildPlayerStats toLowerCase_latin1 rs = Inr ps"
    unfolding rs_def ps_def by (simp add: aggregate_eval names_eval string_eval)
  note iff = all [THEN conjunct1]
  note grouped = all [THEN conjunct2, THEN conjunct1]
  note eq1 = all [THEN conjunct2, THEN conjunct2, THEN conjunct1]
  note eq2 = all [THEN conjunct2, THEN conjunct2, THEN conjunct2]
  from eq1 eq2 have "normalizeName toLowerCase_latin1 (str ''C'' @ [233] @ str ''dric'')
      = normalizeName toLowerCase_latin1 (str ''CEDRIC  '')"
    by (rule HOL.trans)
  with iff have "spelling_variant (toLowerCase_latin1 (str ''C'' @ [233] @ str ''dric''))
      (toLowerCase_latin1 (str ''CEDRIC  ''))"
    by (rule iffD1)
  moreover have "toLowerCase_latin1 (str ''C'' @ [233] @ str ''dric'') = str ''c'' @ [233] @ str ''dric''"
    "toLowerCase_latin1 (str ''CEDRIC  '') = str ''cedric  ''"
    by (simp_all add: toLowerCase_latin1_def lower_unit_def str_def)
  ultimately have variant: "spelling_variant (str ''c'' @ [233] @ str ''dric'') (str ''cedric  '')"
    by simp
  from grouped have "buildPlayerStats toLowerCase_latin1 rs = Inr ps \<longrightarrow>
         distinct (map (\<lambda>p. normalizeName toLowerCase_latin1 (displayName p)) ps)
         \<and> (\<forall>p\<in>set ps.
               totalWins p = length (filter (\<lambda>occ. player_key toLowerCase_latin1 (snd occ)
                                         = Some (normalizeName toLowerCase_latin1 (displayName p)))
                                      (occurrences rs)))
         \<and> (\<forall>occ\<in>set (occurrences rs). \<exists>p\<in>set ps.
               player_key toLowerCase_latin1 (snd occ)
                 = Some (normalizeName toLowerCase_latin1 (displayName p)))"
    by (rule spec)
  from this built have "distinct (map (\<lambda>p. normalizeName toLowerCase_latin1 (displayName p)) ps)"
    by (rule mp [THEN conjunct1])
  with variant built show ?thesis
    unfolding rs_def ps_def by (intro conjI)
qed

section \<open>The display name\<close>

text \<open>
  C7, on the names after \<^verbatim>\<open>applyNameMapping\<close>. Let no winner name of the results \<open>rs\<close>
  be mapped to a value that is not a string (the name would normalise to a property name
  of \<^verbatim>\<open>Object.prototype\<close>, and the aggregator would throw). Let \<open>ca\<close> be the canonical name
  of a winner of \<open>rs\<close>, and let every other canonical name of \<open>rs\<close> with the same key have
  strictly fewer diacritics than \<open>ca\<close>. Then for every sequence \<open>rs'\<close> of these results, in
  whatever order, the aggregator returns players, the player of that key is among them,
  and its display name is \<open>ca\<close>.
\<close>

theorem display_name_most_diacritics:
  assumes "set rs' = set rs"
    and "list_all (\<lambda>occ. applyNameMapping toLowerCase (snd occ) \<noteq> NotAString) (occurrences rs)"
    and "(res, a) \<in> set (occurrences rs)"
    and "applyNameMapping toLowerCase a = Str ca"
    and "\<forall>occ\<in>set (occurrences rs). \<forall>cb.
           applyNameMapping toLowerCase (snd occ) = Str cb
           \<longrightarrow> normalizeName toLowerCase cb = normalizeName toLowerCase ca
           \<longrightarrow> cb \<noteq> ca
           \<longrightarrow> countDiacritics cb < countDiacritics ca"
  shows "\<exists>players. buildPlayerStats toLowerCase rs' = Inr players
           \<and> (\<exists>p\<in>set players. displayName p = ca)
           \<and> (\<forall>q\<in>set players.
                 normalizeName toLowerCase (displayName q) = normalizeName toLowerCase ca
                 \<longrightarrow> displayName q = ca)"
proof -
  from assms(1) have occs: "set (occurrences rs') = set (occurrences rs)"
    by (simp add: set_occurrences)
  with assms(2) have "list_all (\<lambda>occ. applyNameMapping toLowerCase (snd occ) \<noteq> NotAString) (occurrences rs')"
    by (simp add: list_all_iff)
  then obtain pm where run: "credit_all toLowerCase [] (occurrences rs') = Inr pm"
    using credit_all_succeeds by blast
  define players where "players = sort_key (\<lambda>p. - int (totalWins p)) (map snd pm)"
  from run have built: "buildPlayerStats toLowerCase rs' = Inr players"
    by (simp add: buildPlayerStats_def credit_results_occurrences players_def)
  from assms(3) occs have in_occs: "(res, a) \<in> set (occurrences rs')"
    by simp
  have shown: "displayName p = ca" if m: "map_of pm (normalizeName toLowerCase ca) = Some p" for p
  proof (rule ccontr)
    assume differs: "displayName p \<noteq> ca"
    from credit_all_origin [OF run m] obtain occ where "occ \<in> set (occurrences rs')"
      and "applyNameMapping toLowerCase (snd occ) = Str (displayName p)"
      and "normalizeName toLowerCase (displayName p) = normalizeName toLowerCase ca"
      by auto
    with occs assms(5) differs have less: "countDiacritics (displayName p) < countDiacritics ca"
      by blast
    from credit_all_most [OF run in_occs] assms(4) m
    have "countDiacritics ca \<le> countDiacritics (displayName p)"
      by simp
    with less show False by simp
  qed
  from credit_all_most [OF run in_occs] assms(4) obtain p
    where m: "map_of pm (normalizeName toLowerCase ca) = Some p"
    by auto
  then have "p \<in> set players"
    unfolding players_def by (auto dest: map_of_SomeD intro: rev_image_eqI)
  moreover from m have "displayName p = ca"
    by (rule shown)
  ultimately have one: "\<exists>p\<in>set players. displayName p = ca"
    by blast
  have all: "\<forall>q\<in>set players.
                 normalizeName toLowerCase (displayName q) = normalizeName toLowerCase ca
                 \<longrightarrow> displayName q = ca"
  proof (intro ballI impI)
    fix q
    assume "q \<in> set players"
      and same: "normalizeName toLowerCase (displayName q) = normalizeName toLowerCase ca"
    then obtain k where "(k, q) \<in> set pm"
      unfolding players_def by auto
    with run have "map_of pm k = Some q \<and> normalizeName toLowerCase (displayName q) = k"
      by (rule entry_key)
    with same have "map_of pm (normalizeName toLowerCase ca) = Some q"
      by simp
    then show "displayName q = ca"
      by (rule shown)
  qed
  from built one all show ?thesis
    by blast
qed

theorem display_name_most_diacritics_witness:
  "(\<exists>players. buildPlayerStats toLowerCase_latin1
        [\<lparr>year = 2019, category = str ''mix'', type = str ''championship'', poule = str ''A'',
           winners = [str ''Cedric'']\<rparr>,
         \<lparr>year = 2020, category = str ''mix'', type = str ''championship'', poule = str ''A'',
           winners = [str ''C'' @ [233] @ str ''dric'']\<rparr>] = Inr players
      \<and> (\<exists>p\<in>set players. displayName p = str ''C'' @ [233] @ str ''dric''))
   \<and> (\<exists>players. buildPlayerStats toLowerCase_latin1
        [\<lparr>year = 2020, category = str ''mix'', type = str ''championship'', poule = str ''A'',
           winners = [str ''C'' @ [233] @ str ''dric'']\<rparr>,
         \<lparr>year = 2019, category = str ''mix'', type = str ''championship'', poule = str ''A'',
           winners = [str ''Cedric'']\<rparr>] = Inr players
      \<and> (\<exists>p\<in>set players. displayName p = str ''C'' @ [233] @ str ''dric''))"
proof -
  define r1 where "r1 = \<lparr>year = 2019, category = str ''mix'', type = str ''championship'',
    poule = str ''A'', winners = [str ''Cedric'']\<rparr>"
  define r2 where "r2 = \<lparr>year = 2020, category = str ''mix'', type = str ''championship'',
    poule = str ''A'', winners = [str ''C'' @ [233] @ str ''dric'']\<rparr>"
  define plain where "plain = str ''Cedric''"
  define accented where "accented = str ''C'' @ [233] @ str ''dric''"
  have occs: "occurrences [r1, r2] = [(r1, plain), (r2, accented)]"
    by (simp add: occurrences_def r1_def r2_def plain_def accented_def)
  have m1: "applyNameMapping toLowerCase_latin1 plain = Str plain"
    unfolding plain_def by (simp add: names_eval string_eval)
  have m2: "applyNameMapping toLowerCase_latin1 accented = Str accented"
    unfolding accented_def by (simp add: names_eval string_eval)
  have c1: "countDiacritics plain = 0"
    unfolding plain_def by (simp add: countDiacritics_def accented_units_def str_def)
  have c2: "countDiacritics accented = 1"
    unfolding accented_def by (simp add: countDiacritics_def accented_units_def str_def)
  have h2: "list_all (\<lambda>occ. applyNameMapping toLowerCase_latin1 (snd occ) \<noteq> NotAString)
      (occurrences [r1, r2])"
    by (simp add: occs m1 m2)
  have h3: "(r2, accented) \<in> set (occurrences [r1, r2])"
    by (simp add: occs)
  have h5: "\<forall>occ\<in>set (occurrences [r1, r2]). \<forall>cb.
           applyNameMapping toLowerCase_latin1 (snd occ) = Str cb
           \<longrightarrow> normalizeName toLowerCase_latin1 cb = normalizeName toLowerCase_latin1 accented
           \<longrightarrow> cb \<noteq> accented
           \<longrightarrow> countDiacritics cb < countDiacritics accented"
    by (auto simp: occs m1 m2 c1 c2)
  have s1: "set [r1, r2] = set [r1, r2]" by simp
  have s2: "set [r2, r1] = set [r1, r2]" by auto
  from display_name_most_diacritics [OF s1 h2 h3 m2 h5]
  have first: "\<exists>players. buildPlayerStats toLowerCase_latin1 [r1, r2] = Inr players
      \<and> (\<exists>p\<in>set players. displayName p = accented)"
    by blast
  from display_name_most_diacritics [OF s2 h2 h3 m2 h5]
  have second: "\<exists>players. buildPlayerStats toLowerCase_latin1 [r2, r1] = Inr players
      \<and> (\<exists>p\<in>set players. displayName p = accented)"
    by blast
  from first second show ?thesis
    unfolding r1_def r2_def accented_def by (rule conjI)
qed

text \<open>
  C7 as the claim states it, on the raw spellings, fails for a name of \<^verbatim>\<open>NAME_MAPPINGS\<close>:
  both spellings normalise to the same key and one has more diacritics, but the player
  is displayed under the mapped name.
\<close>

theorem mapped_name_is_displayed:
  "normalizeName toLowerCase_latin1 (str ''Roy D'' @ [233] @ str ''rksen'')
     = normalizeName toLowerCase_latin1 (str ''Roy Derksen'')
   \<and> countDiacritics (str ''Roy Derksen'') < countDiacritics (str ''Roy D'' @ [233] @ str ''rksen'')
   \<and> buildPlayerStats toLowerCase_latin1
     [\<lparr>year = 2019, category = str ''mix'', type = str ''championship'', poule = str ''A'',
        winners = [str ''Roy D'' @ [233] @ str ''rksen'']\<rparr>,
      \<lparr>year = 2020, category = str ''mix'', type = str ''championship'', poule = str ''A'',
        winners = [str ''Roy Derksen'']\<rparr>]
   = Inr [\<lparr>displayName = str ''Roy Derks'', wins = [(str ''championship_mix'', Num 2)],
          totalWins = 2\<rparr>]"
  by (simp add: aggregate_eval names_eval string_eval)

section \<open>Cells with several winners\<close>






































end
